theory Spec2Isabelle
  imports Main "HOL-Library.Char_ord" "HOL-Library.List_Lexorder"
begin

section \<open>Text: Python \<open>str\<close> operations used by the scraper\<close>

text \<open>
  Text is a list of 8-bit characters. The character classes and the case mapping below are
  the ASCII ones: a character of code 128 or more belongs to no class and has no case. The
  source works on Unicode \<open>str\<close>; the model agrees with it on ASCII text.
\<close>

definition code_of :: "char \<Rightarrow> nat" where
  "code_of c = of_char c"

definition is_digit :: "char \<Rightarrow> bool" where
  "is_digit c = (48 \<le> code_of c \<and> code_of c \<le> 57)"

definition is_upper :: "char \<Rightarrow> bool" where
  "is_upper c = (65 \<le> code_of c \<and> code_of c \<le> 90)"

definition is_lower :: "char \<Rightarrow> bool" where
  "is_lower c = (97 \<le> code_of c \<and> code_of c \<le> 122)"

definition is_alpha :: "char \<Rightarrow> bool" where
  "is_alpha c = (is_upper c \<or> is_lower c)"

text \<open>
  \<open>\s\<close> and \<open>str.strip()\<close>: tab, line feed, vertical tab, form feed, carriage return, the
  four separators of codes 28 to 31, and space.
\<close>

definition is_space :: "char \<Rightarrow> bool" where
  "is_space c = ((9 \<le> code_of c \<and> code_of c \<le> 13) \<or> (28 \<le> code_of c \<and> code_of c \<le> 32))"

text \<open>\<open>\w\<close>, which decides the word boundary \<open>\b\<close>.\<close>

definition is_word :: "char \<Rightarrow> bool" where
  "is_word c = (is_alpha c \<or> is_digit c \<or> c = CHR ''_'')"

definition lower_chr :: "char \<Rightarrow> char" where
  "lower_chr c = (if is_upper c then char_of (code_of c + 32) else c)"

definition upper_chr :: "char \<Rightarrow> char" where
  "upper_chr c = (if is_lower c then char_of (code_of c - 32) else c)"

text \<open>\<open>s.lower()\<close>\<close>

definition lower :: "string \<Rightarrow> string" where
  "lower s = map lower_chr s"

text \<open>\<open>s.capitalize()\<close>: first character upper case, the rest lower case.\<close>

fun capitalize :: "string \<Rightarrow> string" where
  "capitalize [] = []"
| "capitalize (c # cs) = upper_chr c # lower cs"

text \<open>\<open>s.strip()\<close>\<close>

definition strip :: "string \<Rightarrow> string" where
  "strip s = rev (dropWhile is_space (rev (dropWhile is_space s)))"

text \<open>\<open>s.startswith(p)\<close>\<close>

fun startswith :: "string \<Rightarrow> string \<Rightarrow> bool" where
  "startswith s [] = True"
| "startswith [] (p # ps) = False"
| "startswith (c # cs) (p # ps) = (c = p \<and> startswith cs ps)"

text \<open>\<open>needle in hay\<close>\<close>

fun contains :: "string \<Rightarrow> string \<Rightarrow> bool" where
  "contains needle [] = (needle = [])"
| "contains needle (c # cs) = (startswith (c # cs) needle \<or> contains needle cs)"

text \<open>\<open>s.split(sep)\<close> for a separator of one character; the result is never empty.\<close>

fun split :: "char \<Rightarrow> string \<Rightarrow> string list" where
  "split sep [] = [[]]"
| "split sep (c # cs) =
     (if c = sep then [] # split sep cs
      else (case split sep cs of [] \<Rightarrow> [[c]] | seg # segs \<Rightarrow> (c # seg) # segs))"

text \<open>\<open>sep.join(xs)\<close>\<close>

fun join :: "string \<Rightarrow> string list \<Rightarrow> string" where
  "join sep [] = []"
| "join sep [x] = x"
| "join sep (x # y # ys) = x @ sep @ join sep (y # ys)"

text \<open>
  \<open>s.replace(old, new)\<close> for a non-empty \<open>old\<close>: occurrences are replaced from the left and
  do not overlap. The counter \<open>k\<close> is the number of characters of the current occurrence
  still to be skipped.
\<close>

fun replace_from :: "nat \<Rightarrow> string \<Rightarrow> string \<Rightarrow> string \<Rightarrow> string" where
  "replace_from k old new [] = []"
| "replace_from (Suc k) old new (c # cs) = replace_from k old new cs"
| "replace_from 0 old new (c # cs) =
     (if old \<noteq> [] \<and> startswith (c # cs) old
      then new @ replace_from (length old - 1) old new cs
      else c # replace_from 0 old new cs)"

definition replace :: "string \<Rightarrow> string \<Rightarrow> string \<Rightarrow> string" where
  "replace s old new = replace_from 0 old new s"

text \<open>\<open>s.isdigit()\<close>\<close>

definition isdigit :: "string \<Rightarrow> bool" where
  "isdigit s = (s \<noteq> [] \<and> list_all is_digit s)"

text \<open>
  \<open>list(set(xs))\<close>: the distinct elements of \<open>xs\<close> in an order that Python does not specify.
  The order is the parameter \<open>h\<close>, used only where it gives a rearrangement of the distinct
  elements, so that every \<open>h\<close> yields an order Python may produce and every such order is
  produced by some \<open>h\<close>.
\<close>

definition list_of_set :: "('a list \<Rightarrow> 'a list) \<Rightarrow> 'a list \<Rightarrow> 'a list" where
  "list_of_set h xs =
     (let ys = remdups xs; zs = h ys
      in if distinct zs \<and> set zs = set ys then zs else ys)"

section \<open>Regular expressions: a backtracking matcher\<close>

text \<open>
  The constructs the scraper's patterns use. A repetition is greedy and ranges over one
  character class, as every quantified class of the source does; groups are non-capturing.
\<close>

datatype re =
    Str string
  | Rep "char \<Rightarrow> bool" nat "nat option"
  | Seq re re
  | Alt re re
  | Opt re
  | NotBehind "char \<Rightarrow> bool"
  | NotAhead "char \<Rightarrow> bool"
  | WordB
  | Start
  | End
  | Eps

text \<open>A pattern written as the sequence of its items.\<close>

definition Cat :: "re list \<Rightarrow> re" where
  "Cat rs = foldr Seq rs Eps"

text \<open>
  The matcher's position is the character before it (if any) and the text after it.
  \<open>rx r pos\<close> lists the positions at which a match of \<open>r\<close> begun at \<open>pos\<close> can end, in the
  order in which the backtracking engine tries them: the head is the engine's match.
  \<open>Start\<close> is \<open>^\<close> and \<open>End\<close> is \<open>$\<close> (the end of the text, or just before a final line feed).
\<close>

type_synonym pos = "char option \<times> string"

definition advance :: "pos \<Rightarrow> nat \<Rightarrow> pos" where
  "advance pos n =
     (if n = 0 then pos
      else (Some (last (take n (snd pos))), drop n (snd pos)))"

fun rx :: "re \<Rightarrow> pos \<Rightarrow> pos list" where
  "rx (Str s) pos = (if startswith (snd pos) s then [advance pos (length s)] else [])"
| "rx (Rep cls lo hi) pos =
     (let run = length (takeWhile cls (snd pos));
          most = (case hi of None \<Rightarrow> run | Some n \<Rightarrow> min n run)
      in map (advance pos) (rev [lo..<Suc most]))"
| "rx (Seq a b) pos = concat (map (rx b) (rx a pos))"
| "rx (Alt a b) pos = rx a pos @ rx b pos"
| "rx (Opt a) pos = rx a pos @ [pos]"
| "rx (NotBehind cls) pos =
     (case fst pos of None \<Rightarrow> [pos] | Some c \<Rightarrow> if cls c then [] else [pos])"
| "rx (NotAhead cls) pos =
     (case snd pos of [] \<Rightarrow> [pos] | c # _ \<Rightarrow> if cls c then [] else [pos])"
| "rx WordB pos =
     (let wl = (case fst pos of None \<Rightarrow> False | Some c \<Rightarrow> is_word c);
          wr = (case snd pos of [] \<Rightarrow> False | c # _ \<Rightarrow> is_word c)
      in if wl \<noteq> wr then [pos] else [])"
| "rx Start pos = (case fst pos of None \<Rightarrow> [pos] | Some _ \<Rightarrow> [])"
| "rx End pos = (if snd pos = [] \<or> snd pos = [CHR 0x0A] then [pos] else [])"
| "rx Eps pos = [pos]"

text \<open>The length of the engine's match at a position, if there is one.\<close>

definition match_here :: "re \<Rightarrow> pos \<Rightarrow> nat option" where
  "match_here r pos =
     (case rx r pos of [] \<Rightarrow> None | e # _ \<Rightarrow> Some (length (snd pos) - length (snd e)))"

text \<open>
  The left-to-right scan shared by \<open>re.findall\<close> and \<open>re.sub\<close>: the text cut into matches
  (\<open>Inl\<close>) and unmatched characters (\<open>Inr\<close>). After a match the scan resumes at its end. None
  of the source's patterns matches the empty string, and a match here is one that consumes a
  character. The counter is the number of characters of the current match still to be
  skipped.
\<close>

fun scan :: "re \<Rightarrow> nat \<Rightarrow> char option \<Rightarrow> string \<Rightarrow> (string + char) list" where
  "scan r k prev [] = []"
| "scan r (Suc k) prev (c # cs) = scan r k (Some c) cs"
| "scan r 0 prev (c # cs) =
     (case match_here r (prev, c # cs) of
        Some (Suc n) \<Rightarrow> Inl (take (Suc n) (c # cs)) # scan r n (Some c) cs
      | _ \<Rightarrow> Inr c # scan r 0 (Some c) cs)"

text \<open>\<open>re.findall(pattern, text)\<close> for a pattern without capturing groups\<close>

definition findall :: "re \<Rightarrow> string \<Rightarrow> string list" where
  "findall r text = [m. Inl m \<leftarrow> scan r 0 None text]"

text \<open>\<open>re.sub(pattern, repl, text)\<close> for a literal replacement\<close>

definition sub :: "re \<Rightarrow> string \<Rightarrow> string \<Rightarrow> string" where
  "sub r repl text =
     concat (map (\<lambda>t. case t of Inl m \<Rightarrow> repl | Inr c \<Rightarrow> [c]) (scan r 0 None text))"

text \<open>\<open>re.match(pattern, text)\<close> read as a truth value: is there a match at the start?\<close>

definition re_match :: "re \<Rightarrow> string \<Rightarrow> bool" where
  "re_match r text = (rx r (None, text) \<noteq> [])"

text \<open>Character classes of the patterns.\<close>

definition one_of :: "string \<Rightarrow> char \<Rightarrow> bool" where
  "one_of s c = (c \<in> set s)"

section \<open>utils.py\<close>

text \<open>\<open>clean_text\<close>: \<open>re.sub(r"\s+", " ", text).strip()\<close>, and the empty text for an empty one.\<close>

definition ws_run :: re where
  "ws_run = Rep is_space 1 None"

definition clean_text :: "string \<Rightarrow> string" where
  "clean_text text = (if text = [] then [] else strip (sub ws_run '' '' text))"

text \<open>\<open>[a-zA-Z0-9._%+-]+@[a-zA-Z0-9.-]+\.[a-zA-Z]{2,}\<close>\<close>

definition email_local :: "char \<Rightarrow> bool" where
  "email_local c = (is_alpha c \<or> is_digit c \<or> one_of ''._%+-'' c)"

definition email_domain :: "char \<Rightarrow> bool" where
  "email_domain c = (is_alpha c \<or> is_digit c \<or> one_of ''.-'' c)"

definition email_re :: re where
  "email_re = Cat [Rep email_local 1 None, Str ''@'', Rep email_domain 1 None,
                   Str ''.'', Rep is_alpha 2 None]"

definition extract_emails :: "(string list \<Rightarrow> string list) \<Rightarrow> string \<Rightarrow> string list" where
  "extract_emails h text = list_of_set h (findall email_re text)"

text \<open>\<open>(?:\+\d{1,3}[-.\s]?)?\(?[0-9]{2,4}\)?[-.\s]?[0-9]{2,4}[-.\s]?[0-9]{4}\<close>\<close>

definition phone_sep :: "char \<Rightarrow> bool" where
  "phone_sep c = (one_of ''-.'' c \<or> is_space c)"

definition phone_re :: re where
  "phone_re =
     Cat [Opt (Cat [Str ''+'', Rep is_digit 1 (Some 3), Rep phone_sep 0 (Some 1)]),
          Rep (one_of ''('') 0 (Some 1), Rep is_digit 2 (Some 4),
          Rep (one_of '')'') 0 (Some 1), Rep phone_sep 0 (Some 1),
          Rep is_digit 2 (Some 4), Rep phone_sep 0 (Some 1), Rep is_digit 4 (Some 4)]"

text \<open>\<open>re.sub(r'[^\d+]', '', match)\<close>\<close>

definition not_phone_chr :: "char \<Rightarrow> bool" where
  "not_phone_chr c = (\<not> (is_digit c \<or> c = CHR ''+''))"

definition cleaned :: "string \<Rightarrow> string" where
  "cleaned m = sub (Rep not_phone_chr 1 (Some 1)) [] m"

text \<open>\<open>^\d{1,4}$\<close>\<close>

definition short_number :: re where
  "short_number = Cat [Start, Rep is_digit 1 (Some 4), End]"

text \<open>The loop of \<open>extract_phones\<close> over the matches, with its two accumulators.\<close>

fun phones_loop :: "string list \<Rightarrow> string list \<Rightarrow> string set \<Rightarrow> string list" where
  "phones_loop [] phones seen = phones"
| "phones_loop (m # ms) phones seen =
     (let c = cleaned m
      in if 8 \<le> length c \<and> c \<notin> seen
         then (if \<not> re_match short_number c
               then phones_loop ms (phones @ [strip m]) (insert c seen)
               else phones_loop ms phones seen)
         else phones_loop ms phones seen)"

definition extract_phones :: "string \<Rightarrow> string list" where
  "extract_phones text =
     (if text = [] then [] else phones_loop (findall phone_re text) [] {})"

definition SOCIAL_DOMAINS :: "string list" where
  "SOCIAL_DOMAINS = [''linkedin.com'', ''twitter.com'', ''x.com'', ''facebook.com'',
                     ''instagram.com'', ''youtube.com'']"

definition is_social_link :: "string \<Rightarrow> bool" where
  "is_social_link url = list_ex (\<lambda>domain. contains domain (lower url)) SOCIAL_DOMAINS"

text \<open>
  The exceptions that end a run without a result: the \<open>ValueError\<close> that \<open>urlparse\<close> and
  \<open>urljoin\<close> raise on a malformed URL, and the failure of the browser to start.
\<close>

datatype exn = ValueError | DriverError

text \<open>
  \<open>get_internal_links\<close>. The two functions of \<open>urllib.parse\<close> are parameters:
  \<open>netloc u\<close> is \<open>urlparse(u).netloc\<close> and \<open>urljoin\<close> is \<open>urljoin\<close>, each with \<open>None\<close> where the
  library raises \<open>ValueError\<close>. The loop goes through the links with the set \<open>internal\<close>, as
  the list of the elements added; the first link that the library rejects ends it.
\<close>

fun internal_loop ::
  "(string \<Rightarrow> string option) \<Rightarrow> (string \<Rightarrow> string \<Rightarrow> string option) \<Rightarrow>
   string \<Rightarrow> string \<Rightarrow> string list \<Rightarrow> string list \<Rightarrow> exn + string list" where
  "internal_loop netloc urljoin base_url base_domain [] internal = Inr internal"
| "internal_loop netloc urljoin base_url base_domain (link # links) internal =
     (case urljoin base_url link of
        None \<Rightarrow> Inl ValueError
      | Some full \<Rightarrow>
          (case netloc full of
             None \<Rightarrow> Inl ValueError
           | Some domain \<Rightarrow>
               internal_loop netloc urljoin base_url base_domain links
                 (if domain = base_domain then internal @ [full] else internal)))"

definition get_internal_links ::
  "(string list \<Rightarrow> string list) \<Rightarrow> (string \<Rightarrow> string option) \<Rightarrow>
   (string \<Rightarrow> string \<Rightarrow> string option) \<Rightarrow> string \<Rightarrow> string list \<Rightarrow> exn + string list" where
  "get_internal_links h netloc urljoin base_url links =
     (case netloc base_url of
        None \<Rightarrow> Inl ValueError
      | Some base_domain \<Rightarrow>
          (case internal_loop netloc urljoin base_url base_domain links [] of
             Inl x \<Rightarrow> Inl x
           | Inr internal \<Rightarrow> Inr (list_of_set h internal)))"

section \<open>parser.py\<close>

text \<open>
  A parsed document (the \<open>BeautifulSoup\<close> object) is what the queries of the code return
  on it: \<open>soup.title\<close> and its \<open>.string\<close> (\<open>None\<close>: no title element; \<open>Some None\<close>: a title
  element whose \<open>.string\<close> is \<open>None\<close>), the \<open>.text\<close> of the first \<open>h1\<close>, the \<open>href\<close> of every
  \<open>a\<close> element that has one, the \<open>.text\<close> of the \<open>h1\<close>, \<open>h2\<close> and \<open>h3\<close> elements, and
  \<open>get_text()\<close>.
\<close>

record soup =
  title_string :: "string option option"
  first_h1 :: "string option"
  hrefs :: "string list"
  headings :: "string list"
  get_text :: string

text \<open>
  \<open>get_visible_text\<close> removes the \<open>script\<close>, \<open>style\<close> and \<open>noscript\<close> elements from the document
  it is given, so it returns the document it leaves behind as well; \<open>decompose\<close> is that
  removal, done by the parser library.
\<close>

definition get_visible_text :: "(soup \<Rightarrow> soup) \<Rightarrow> soup \<Rightarrow> string \<times> soup" where
  "get_visible_text decompose sp =
     (let sp' = decompose sp in (clean_text (get_text sp'), sp'))"

section \<open>extractor.py\<close>

definition PRIORITY_KEYWORDS :: "string list" where
  "PRIORITY_KEYWORDS =
     [''about'', ''company'', ''products'', ''solutions'',
      ''industries'', ''pricing'', ''contact'', ''careers'',
      ''innovations'', ''about us'', ''blog'', ''news'',
      ''features'', ''services'', ''why'', ''use cases'',
      ''updates'', ''resources'', ''case studies'',
      ''contact'', ''contact us'', ''get in touch'', ''support'',
      ''help'', ''faq'', ''integrations'', ''partners'',
      ''jobs'', ''job'', ''hiring'', ''work with us'', ''join us'',
      ''team'', ''our team'', ''leadership'']"

record identity_rec =
  company_name :: string
  website :: string
  tagline :: string

text \<open>Python's truth value of a string that may be \<open>None\<close>.\<close>

fun truthy :: "string option \<Rightarrow> bool" where
  "truthy None = False"
| "truthy (Some s) = (s \<noteq> [])"

text \<open>The name taken from a non-empty title: the body of \<open>if title:\<close>.\<close>

definition name_of_title :: "string \<Rightarrow> string" where
  "name_of_title title =
     (let parts = map strip (split CHR ''|'' (replace (replace title '' | '' ''|'') '' - '' ''-''))
      in if 1 < length parts then last parts
         else (let parts = split CHR ''-'' title
               in if 1 < length parts then strip (last parts) else strip title))"

definition extract_identity :: "(string \<Rightarrow> string) \<Rightarrow> soup \<Rightarrow> string \<Rightarrow> identity_rec" where
  "extract_identity netloc sp url =
     (let title = (case title_string sp of None \<Rightarrow> Some [] | Some t \<Rightarrow> t);
          h1 = first_h1 sp;
          domain = hd (split CHR ''.'' (replace (netloc url) ''www.'' []));
          company_name = (case title of
                            None \<Rightarrow> capitalize domain
                          | Some t \<Rightarrow> if t \<noteq> [] then name_of_title t else capitalize domain)
      in \<lparr>company_name = company_name, website = url,
          tagline = (case h1 of None \<Rightarrow> [] | Some t \<Rightarrow> strip t)\<rparr>)"

definition extract_links :: "soup \<Rightarrow> string list" where
  "extract_links sp = hrefs sp"

definition filter_priority_pages :: "(string list \<Rightarrow> string list) \<Rightarrow> string list \<Rightarrow> string list" where
  "filter_priority_pages h links =
     list_of_set h (filter (\<lambda>link. list_ex (\<lambda>key. contains key (lower link)) PRIORITY_KEYWORDS)
                           links)"

record contacts_rec =
  emails :: "string list"
  phones :: "string list"

definition extract_contacts :: "(string list \<Rightarrow> string list) \<Rightarrow> string \<Rightarrow> contacts_rec" where
  "extract_contacts h text = \<lparr>emails = extract_emails h text, phones = extract_phones text\<rparr>"

definition extract_company_description :: "string \<Rightarrow> string" where
  "extract_company_description text =
     (if text = [] then []
      else (let sentences = take 5 (split CHR ''.'' text);
                description = strip (join ''. '' sentences);
                description = sub ws_run '' '' description
            in if 500 < length description then take 500 description @ ''...''
               else description))"

definition service_keywords :: "string list" where
  "service_keywords =
     [''service'', ''product'', ''solution'', ''tool'', ''platform'',
      ''feature'', ''offering'', ''plan'', ''package'', ''subscription'',
      ''software'', ''application'', ''api'', ''integration'', ''plugin'']"

text \<open>The body of the loop over the lines: the services a line contributes.\<close>

definition services_of_line :: "string \<Rightarrow> string list" where
  "services_of_line line =
     (let line_lower = strip (lower line)
      in if line_lower = [] \<or> length line_lower < 10 then []
         else if list_ex (\<lambda>keyword. contains keyword line_lower \<and> 15 < length line
                                       \<and> length line < 200) service_keywords
              then [strip line]
              else [])"

definition extract_services_and_products ::
  "(string list \<Rightarrow> string list) \<Rightarrow> string \<Rightarrow> string list" where
  "extract_services_and_products h text =
     (if text = [] then []
      else (let lines = split CHR 0x0A text;
                services = concat (map services_of_line (take 50 lines))
            in take 10 (list_of_set h services)))"

record pricing_info =
  tiers :: "string list"
  prices :: "string list"
  trial_available :: bool
  free_option :: bool

definition tier_keywords :: "string list" where
  "tier_keywords = [''starter'', ''basic'', ''pro'', ''premium'', ''enterprise'', ''business'',
                    ''professional'']"

text \<open>\<open>(?:\.\d{2})?\<close>, shared by the three price patterns\<close>

definition cents :: re where
  "cents = Opt (Cat [Str ''.'', Rep is_digit 2 (Some 2)])"

text \<open>\<open>\$[\d,]+(?:\.\d{2})?(?:/(?:month|year))?\<close>\<close>

definition price_pattern :: re where
  "price_pattern =
     Cat [Str ''$'', Rep (\<lambda>c. is_digit c \<or> c = CHR '','') 1 None, cents,
          Opt (Cat [Str ''/'', Alt (Str ''month'') (Str ''year'')])]"

text \<open>\<open>(?<![a-zA-Z])\d{2,5}(?:\.\d{2})?/(?:month|year)\<close>\<close>

definition price_pattern_no_dollar :: re where
  "price_pattern_no_dollar =
     Cat [NotBehind is_alpha, Rep is_digit 2 (Some 5), cents,
          Str ''/'', Alt (Str ''month'') (Str ''year'')]"

text \<open>\<open>(?<!\$)\b\d{2,5}(?:\.\d{2})?\b(?![\d/])\<close>\<close>

definition price_pattern_standalone :: re where
  "price_pattern_standalone =
     Cat [NotBehind (one_of ''$''), WordB, Rep is_digit 2 (Some 5), cents, WordB,
          NotAhead (\<lambda>c. is_digit c \<or> c = CHR ''/'')]"

text \<open>
  The three loops that fill the set \<open>all_prices\<close>, as the list of the strings added, in the
  order in which they are added.
\<close>

definition all_prices :: "string \<Rightarrow> string list" where
  "all_prices text =
     (let prices_with_dollar = findall price_pattern text;
          prices_no_dollar = findall price_pattern_no_dollar text;
          prices_standalone = findall price_pattern_standalone text
      in prices_with_dollar
         @ map (\<lambda>price. if \<not> startswith price ''$'' then CHR ''$'' # price else price)
               prices_no_dollar
         @ map (\<lambda>price. CHR ''$'' # price)
               (filter (\<lambda>price. (0 < length price \<and> isdigit price) \<or> contains ''.'' price)
                       prices_standalone))"

text \<open>\<open>extract_pricing\<close>; the empty dictionary \<open>{}\<close> returned for an empty text is \<open>None\<close>.\<close>

definition extract_pricing :: "(string list \<Rightarrow> string list) \<Rightarrow> string \<Rightarrow> pricing_info option" where
  "extract_pricing h text =
     (if text = [] then None
      else (let text_lower = lower text;
                free = contains ''free'' text_lower;
                trial = (contains ''trial'' text_lower \<or> contains ''free trial'' text_lower);
                found = map capitalize (filter (\<lambda>tier. contains tier text_lower) tier_keywords)
            in Some \<lparr>tiers = list_of_set h found,
                     prices = take 5 (sort (list_of_set h (all_prices text))),
                     trial_available = trial,
                     free_option = free\<rparr>))"

definition customer_keywords :: "string list" where
  "customer_keywords =
     [''enterprise'', ''startup'', ''sme'', ''small business'', ''mid-market'',
      ''enterprise'', ''healthcare'', ''finance'', ''retail'', ''education'',
      ''manufacturing'', ''technology'', ''agency'', ''team'', ''business'',
      ''professional'', ''developer'', ''freelancer'', ''consultant'']"

definition extract_target_customers :: "(string list \<Rightarrow> string list) \<Rightarrow> string \<Rightarrow> string list" where
  "extract_target_customers h text =
     (if text = [] then []
      else (let text_lower = lower text
            in list_of_set h
                 (map capitalize (filter (\<lambda>keyword. contains keyword text_lower)
                                         customer_keywords))))"

record business_rec =
  services :: "string list"
  pricing :: "pricing_info option"
  target_customers :: "string list"

definition extract_business_info :: "(string list \<Rightarrow> string list) \<Rightarrow> string \<Rightarrow> business_rec" where
  "extract_business_info h text =
     \<lparr>services = extract_services_and_products h text,
      pricing = extract_pricing h text,
      target_customers = extract_target_customers h text\<rparr>"

text \<open>The body of the loop of \<open>categorize_social_links\<close>; the dictionary is a map.\<close>

definition social_step :: "(string \<rightharpoonup> string) \<Rightarrow> string \<Rightarrow> (string \<rightharpoonup> string)" where
  "social_step socials link =
     (let l = lower link
      in if contains ''linkedin'' l then socials(''linkedin'' \<mapsto> link)
         else if contains ''twitter'' l \<or> contains ''x.com'' l then socials(''twitter'' \<mapsto> link)
         else if contains ''facebook'' l then socials(''facebook'' \<mapsto> link)
         else if contains ''instagram'' l then socials(''instagram'' \<mapsto> link)
         else if contains ''youtube'' l then socials(''youtube'' \<mapsto> link)
         else socials)"

definition categorize_social_links :: "string list \<Rightarrow> (string \<rightharpoonup> string)" where
  "categorize_social_links links = foldl social_step Map.empty links"

section \<open>fetcher.py and runner.py\<close>

text \<open>
  What the orchestrator is given by its collaborators. The browser has a state of type
  \<open>'w\<close>. \<open>chrome\<close> is the start of the browser, \<open>webdriver.Chrome(...)\<close>: the new browser, or
  the exception. \<open>browse w url\<close> is \<open>driver.get(url)\<close> followed by \<open>driver.page_source\<close>, with
  \<open>Inl msg\<close> for an exception whose \<open>str\<close> is \<open>msg\<close> and \<open>Inr src\<close> for the page source; \<open>quit\<close>
  is \<open>driver.quit()\<close>. \<open>soup_of\<close> is \<open>BeautifulSoup(html, "lxml")\<close> and \<open>decompose\<close> the removal
  of the hidden elements. \<open>netloc\<close> and \<open>urljoin\<close> are the functions of \<open>urllib.parse\<close>, with
  \<open>None\<close> where they raise \<open>ValueError\<close>. \<open>now\<close> is the time stamp and \<open>order\<close> the iteration
  order of sets. The parser, the queries on a document and \<open>quit\<close> are taken to return; the
  waiting time and the printed summary are not modelled.
\<close>

record 'w env =
  chrome :: "exn + 'w"
  browse :: "'w \<Rightarrow> string \<Rightarrow> (string + string) \<times> 'w"
  quit :: "'w \<Rightarrow> 'w"
  soup_of :: "string \<Rightarrow> soup"
  decompose :: "soup \<Rightarrow> soup"
  netloc :: "string \<Rightarrow> string option"
  urljoin :: "string \<Rightarrow> string \<Rightarrow> string option"
  now :: string
  order :: "string list \<Rightarrow> string list"

text \<open>\<open>get_driver\<close>: the browser, started, or the exception that its start raises.\<close>

definition get_driver :: "'w env \<Rightarrow> exn + 'w" where
  "get_driver e = chrome e"

text \<open>\<open>fetch_page\<close>: the page source and no error, or no page and the error message.\<close>

definition fetch_page ::
  "'w env \<Rightarrow> 'w \<Rightarrow> string \<Rightarrow> (string option \<times> string option) \<times> 'w" where
  "fetch_page e w url =
     (case browse e w url of
        (Inr src, w') \<Rightarrow> ((Some src, None), w')
      | (Inl msg, w') \<Rightarrow> ((None, Some msg), w'))"

definition parse_html :: "'w env \<Rightarrow> string \<Rightarrow> soup" where
  "parse_html e html = soup_of e html"

definition MAX_PAGES :: nat where
  "MAX_PAGES = 8"

record metadata_rec =
  timestamp :: string
  pages_crawled :: nat
  errors :: "string list"

record page_rec =
  text_preview :: string
  title :: "string option"
  page_headings :: "string list"

record key_pages_rec =
  visited :: "string list"
  page_details :: "string \<rightharpoonup> page_rec"

text \<open>The result dictionary: a key that is not set is \<open>None\<close>.\<close>

record result =
  metadata :: metadata_rec
  identity :: "identity_rec option"
  contacts :: "contacts_rec option"
  social_links :: "(string \<rightharpoonup> string) option"
  description :: "string option"
  business_info :: "business_rec option"
  key_pages :: "key_pages_rec option"

text \<open>\<open>str(error)\<close>\<close>

fun str_of :: "string option \<Rightarrow> string" where
  "str_of None = ''None''"
| "str_of (Some s) = s"

text \<open>The string that a value known to be truthy holds.\<close>

fun string_of :: "string option \<Rightarrow> string" where
  "string_of None = []"
| "string_of (Some s) = s"

text \<open>
  The loop over the priority pages. Its state is the text gathered so far, the pages
  visited, their details and the social links found (the elements added to the set, in the
  order in which they are added), with the state of the browser.
\<close>

type_synonym 'w crawl =
  "string \<times> string list \<times> (string \<rightharpoonup> page_rec) \<times> string list \<times> 'w"

fun crawl_pages :: "'w env \<Rightarrow> string list \<Rightarrow> 'w crawl \<Rightarrow> 'w crawl" where
  "crawl_pages e [] st = st"
| "crawl_pages e (page_url # rest) (all_text, vis, page_contents, socials, w) =
     (case fetch_page e w page_url of
        ((page_html, err), w') \<Rightarrow>
          if \<not> truthy page_html then crawl_pages e rest (all_text, vis, page_contents, socials, w')
          else (case get_visible_text (decompose e) (parse_html e (string_of page_html)) of
                  (page_text, page_soup) \<Rightarrow>
                    crawl_pages e rest
                      (all_text @ '' '' @ page_text,
                       vis @ [page_url],
                       page_contents(page_url \<mapsto>
                         \<lparr>text_preview = take 500 page_text,
                          title = (case title_string page_soup of None \<Rightarrow> Some [] | Some t \<Rightarrow> t),
                          page_headings = map strip (take 5 (headings page_soup))\<rparr>),
                       socials @ filter is_social_link (hrefs page_soup),
                       w')))"

text \<open>
  \<open>urlparse(u).netloc\<close> as \<open>extract_identity\<close> reads it. \<open>run\<close> calls \<open>extract_identity\<close> only
  for a URL that \<open>urlparse\<close> accepts: where it raises, the run has ended.
\<close>

definition accepted :: "(string \<Rightarrow> string option) \<Rightarrow> string \<Rightarrow> string" where
  "accepted nl u = (case nl u of None \<Rightarrow> [] | Some host \<Rightarrow> host)"

text \<open>
  \<open>run\<close>: the result and the state of the browser after \<open>driver.quit()\<close>, or the exception
  that ended the run. Nothing in \<open>run\<close> catches an exception, so the one of \<open>get_driver\<close>,
  of \<open>urlparse\<close> in \<open>extract_identity\<close> and of \<open>get_internal_links\<close> is the outcome of the run.
\<close>

definition run :: "'w env \<Rightarrow> string \<Rightarrow> exn + result \<times> 'w" where
  "run e url =
     (case get_driver e of
        Inl x \<Rightarrow> Inl x
      | Inr driver \<Rightarrow>
          (let meta = \<lparr>timestamp = now e, pages_crawled = 0, errors = []\<rparr>
           in case fetch_page e driver url of
                ((html, error), w) \<Rightarrow>
                  if truthy error \<or> \<not> truthy html
                  then Inr (\<lparr>metadata = meta\<lparr>errors := errors meta @ [str_of error]\<rparr>,
                             identity = None, contacts = None, social_links = None,
                             description = None, business_info = None, key_pages = None\<rparr>,
                            quit e w)
                  else (case get_visible_text (decompose e) (parse_html e (string_of html)) of
                          (homepage_text, sp) \<Rightarrow>
                            (case netloc e url of
                               None \<Rightarrow> Inl ValueError
                             | Some host \<Rightarrow>
                                 (let ident = extract_identity (accepted (netloc e)) sp url;
                                      homepage_links = extract_links sp
                                  in case get_internal_links (order e) (netloc e) (urljoin e) url
                                            homepage_links of
                                       Inl x \<Rightarrow> Inl x
                                     | Inr internal_links \<Rightarrow>
                                         (let priority_pages =
                                                filter_priority_pages (order e) internal_links
                                          in case crawl_pages e (take MAX_PAGES priority_pages)
                                                    (homepage_text, [], Map.empty, [], w) of
                                               (all_text, vis, page_contents, socials, w') \<Rightarrow>
                                                 Inr (\<lparr>metadata = meta\<lparr>pages_crawled := 1 + length vis\<rparr>,
                                                       identity = Some ident,
                                                       contacts = Some (extract_contacts (order e) all_text),
                                                       social_links =
                                                         Some (categorize_social_links
                                                                 (list_of_set (order e) socials)),
                                                       description =
                                                         Some (extract_company_description all_text),
                                                       business_info =
                                                         Some (extract_business_info (order e) all_text),
                                                       key_pages =
                                                         Some \<lparr>visited = vis,
                                                               page_details = page_contents\<rparr>\<rparr>,
                                                      quit e w')))))))"

section \<open>Notions used to state the properties\<close>

text \<open>
  The platform of a link, in the words of the specification: the first platform, in the
  order linkedin, twitter (marker \<open>twitter\<close> or \<open>x.com\<close>), facebook, instagram, youtube, one
  of whose markers occurs in the lower-cased link.
\<close>

definition platform_markers :: "(string \<times> string list) list" where
  "platform_markers =
     [(''linkedin'', [''linkedin'']), (''twitter'', [''twitter'', ''x.com'']),
      (''facebook'', [''facebook'']), (''instagram'', [''instagram'']),
      (''youtube'', [''youtube''])]"

definition spec_bucket :: "string \<Rightarrow> string option" where
  "spec_bucket link =
     map_option fst
       (find (\<lambda>(platform, markers). list_ex (\<lambda>m. contains m (lower link)) markers)
             platform_markers)"

definition platform_names :: "string list" where
  "platform_names = [''linkedin'', ''twitter'', ''facebook'', ''instagram'', ''youtube'']"

text \<open>
  The strings a pattern can match, whatever stands around them: the assertions, which
  consume nothing, are read as the empty string.
\<close>

primrec lang :: "re \<Rightarrow> string set" where
  "lang (Str s) = {s}"
| "lang (Rep cls lo hi) =
     {m. list_all cls m \<and> lo \<le> length m \<and> (case hi of None \<Rightarrow> True | Some n \<Rightarrow> length m \<le> n)}"
| "lang (Seq a b) = {x @ y | x y. x \<in> lang a \<and> y \<in> lang b}"
| "lang (Alt a b) = lang a \<union> lang b"
| "lang (Opt a) = insert [] (lang a)"
| "lang (NotBehind cls) = {[]}"
| "lang (NotAhead cls) = {[]}"
| "lang WordB = {[]}"
| "lang Start = {[]}"
| "lang End = {[]}"
| "lang Eps = {[]}"

text \<open>The elements of a list that are the first with their key.\<close>

fun first_by :: "('a \<Rightarrow> 'b) \<Rightarrow> 'a list \<Rightarrow> 'a list" where
  "first_by f [] = []"
| "first_by f (x # xs) = x # first_by f (filter (\<lambda>y. f y \<noteq> f x) xs)"

text \<open>
  The test that \<open>extract_phones\<close> makes on a match, duplicates apart: the cleaned form has
  at least 8 characters and is not a number of one to four digits.
\<close>

definition phone_ok :: "string \<Rightarrow> bool" where
  "phone_ok m = (8 \<le> length (cleaned m) \<and> \<not> re_match short_number (cleaned m))"

text \<open>The characters of a telephone number: digits, \<open>+\<close>, parentheses and separators.\<close>

definition phone_chr :: "char \<Rightarrow> bool" where
  "phone_chr c = (is_digit c \<or> one_of ''+()'' c \<or> phone_sep c)"

text \<open>The text on which the specification tries the pricing extractor.\<close>

definition pricing_example :: string where
  "pricing_example = ''Starter plan $29/month, Pro plan $99/month, free trial available''"

text \<open>
  Collapsing white space, as a function on the text: every run of white space becomes one
  space. \<open>squeeze\<close> is told whether the character before was white space.
\<close>

fun squeeze :: "bool \<Rightarrow> string \<Rightarrow> string" where
  "squeeze in_run [] = []"
| "squeeze in_run (c # cs) =
     (if is_space c then (if in_run then squeeze True cs else CHR '' '' # squeeze True cs)
      else c # squeeze False cs)"

definition collapse_ws :: "string \<Rightarrow> string" where
  "collapse_ws s = squeeze False s"

text \<open>
  The description before it is cut: the first five segments between full stops, rejoined
  with a full stop and a space, trimmed, white space collapsed.
\<close>

definition first_sentences :: "string \<Rightarrow> string" where
  "first_sentences text = collapse_ws (strip (join ''. '' (take 5 (split CHR ''.'' text))))"

text \<open>\<open>s.endswith(suffix)\<close>\<close>

definition endswith :: "string \<Rightarrow> string \<Rightarrow> bool" where
  "endswith s suffix =
     (length suffix \<le> length s \<and> drop (length s - length suffix) s = suffix)"

text \<open>Two white-space characters, or two full stops, next to each other.\<close>

fun space_pair :: "string \<Rightarrow> bool" where
  "space_pair (a # b # cs) = ((is_space a \<and> is_space b) \<or> space_pair (b # cs))"
| "space_pair [a] = False"
| "space_pair [] = False"

fun dot_pair :: "string \<Rightarrow> bool" where
  "dot_pair (a # b # cs) = ((a = CHR ''.'' \<and> b = CHR ''.'') \<or> dot_pair (b # cs))"
| "dot_pair [a] = False"
| "dot_pair [] = False"

text \<open>The title that \<open>extract_identity\<close> reads: the empty string when there is none.\<close>

definition page_title :: "soup \<Rightarrow> string" where
  "page_title sp = (case title_string sp of Some (Some t) \<Rightarrow> t | _ \<Rightarrow> [])"

text \<open>A document with nothing but a title.\<close>

definition titled :: "string option option \<Rightarrow> soup" where
  "titled t = \<lparr>title_string = t, first_h1 = None, hrefs = [], headings = [], get_text = []\<rparr>"

text \<open>
  The segments of a title: cut at every \<open>|\<close> if there is one (after \<open>" | "\<close> and \<open>" - "\<close> have lost
  their spaces), else at every \<open>-\<close>.
\<close>

definition title_segments :: "string \<Rightarrow> string list" where
  "title_segments t =
     (if CHR ''|'' \<in> set t then split CHR ''|'' (replace (replace t '' | '' ''|'') '' - '' ''-'')
      else split CHR ''-'' t)"

text \<open>The host of the URL with every \<open>www.\<close> removed.\<close>

definition bare_host :: "(string \<Rightarrow> string) \<Rightarrow> string \<Rightarrow> string" where
  "bare_host nl url = replace (nl url) ''www.'' []"

text \<open>
  The fetch of the homepage fails: the browser raises (a transport error) or gives an empty
  page source.
\<close>

definition home_failed :: "'w env \<Rightarrow> 'w \<Rightarrow> string \<Rightarrow> bool" where
  "home_failed e w url = (case fst (browse e w url) of Inl msg \<Rightarrow> True | Inr src \<Rightarrow> src = [])"

text \<open>The library rejects a link: \<open>urljoin\<close> raises on it, or \<open>urlparse\<close> on the joined URL.\<close>

definition rejects ::
  "(string \<Rightarrow> string option) \<Rightarrow> (string \<Rightarrow> string \<Rightarrow> string option) \<Rightarrow> string \<Rightarrow> string \<Rightarrow> bool" where
  "rejects nl uj base link = (case uj base link of None \<Rightarrow> True | Some full \<Rightarrow> nl full = None)"

text \<open>The library rejects the URL of the homepage or one of the links on the homepage.\<close>

definition home_rejected :: "'w env \<Rightarrow> 'w \<Rightarrow> string \<Rightarrow> bool" where
  "home_rejected e w url =
     (case fst (browse e w url) of
        Inl msg \<Rightarrow> False
      | Inr src \<Rightarrow>
          (let sp = snd (get_visible_text (decompose e) (parse_html e src))
           in netloc e url = None
              \<or> list_ex (rejects (netloc e) (urljoin e) url) (extract_links sp)))"

text \<open>The fetches of a list of pages, one after the other: each URL with the page it gave.\<close>

fun fetch_log :: "'w env \<Rightarrow> 'w \<Rightarrow> string list \<Rightarrow> (string \<times> string option) list" where
  "fetch_log e w [] = []"
| "fetch_log e w (u # us) =
     (case fetch_page e w u of ((html, err), w') \<Rightarrow> (u, html) # fetch_log e w' us)"

text \<open>The priority pages that a run fetches: the selection, cut to \<open>MAX_PAGES\<close>.\<close>

definition attempted_pages :: "'w env \<Rightarrow> 'w \<Rightarrow> string \<Rightarrow> string list" where
  "attempted_pages e w url =
     (case fst (browse e w url) of
        Inl msg \<Rightarrow> []
      | Inr src \<Rightarrow>
          (let sp = snd (get_visible_text (decompose e) (parse_html e src))
           in case get_internal_links (order e) (netloc e) (urljoin e) url (extract_links sp) of
                Inl x \<Rightarrow> []
              | Inr internal_links \<Rightarrow>
                  take MAX_PAGES (filter_priority_pages (order e) internal_links)))"

text \<open>
  Two small sites to run the orchestrator on. The first has a homepage with three priority
  pages, one of which cannot be fetched, and an external link. The homepage of the second
  has the link \<open>http://[\<close>, on which \<open>urljoin\<close> raises \<open>ValueError\<close>.
\<close>

definition demo_browse :: "nat \<Rightarrow> string \<Rightarrow> (string + string) \<times> nat" where
  "demo_browse n url =
     (if url = ''https://acme.test'' then Inr ''home''
      else if url = ''https://acme.test/about'' then Inr ''about''
      else if url = ''https://acme.test/pricing'' then Inl ''timeout''
      else if url = ''https://acme.test/contact'' then Inr ''contact''
      else if url = ''https://bracket.test'' then Inr ''bracket''
      else Inl ''unreachable'',
      Suc n)"

definition demo_soup :: "string \<Rightarrow> soup" where
  "demo_soup html =
     (if html = ''home''
      then \<lparr>title_string = Some (Some ''Home | Acme''), first_h1 = Some ''Acme'',
            hrefs = [''/about'', ''/pricing'', ''/contact'', ''https://x.com/acme''],
            headings = [''Acme''], get_text = ''Acme builds tools.''\<rparr>
      else if html = ''bracket''
      then \<lparr>title_string = Some (Some ''Bracket''), first_h1 = None,
            hrefs = [''/about'', ''http://[''], headings = [], get_text = ''Bracket''\<rparr>
      else \<lparr>title_string = Some (Some html), first_h1 = None,
            hrefs = [''https://x.com/acme''], headings = [], get_text = html\<rparr>)"

definition demo_netloc :: "string \<Rightarrow> string" where
  "demo_netloc u = takeWhile (\<lambda>c. c \<noteq> CHR ''/'') (drop 8 u)"

definition demo_urljoin :: "string \<Rightarrow> string \<Rightarrow> string option" where
  "demo_urljoin base link =
     (if link = ''http://['' then None
      else if startswith link ''/'' then Some (base @ link)
      else Some link)"

definition demo_env :: "nat env" where
  "demo_env =
     \<lparr>chrome = Inr 0, browse = demo_browse, quit = id, soup_of = demo_soup, decompose = id,
      netloc = (\<lambda>u. Some (demo_netloc u)), urljoin = demo_urljoin,
      now = ''2024-01-01T00:00:00+00:00'', order = id\<rparr>"

section \<open>Social links\<close>

lemma social_step_bucket:
  "social_step socials link =
     (case spec_bucket link of None \<Rightarrow> socials | Some k \<Rightarrow> socials(k \<mapsto> link))"
  by (simp add: social_step_def spec_bucket_def platform_markers_def Let_def)

lemma categorize_snoc:
  "categorize_social_links (links @ [l]) = social_step (categorize_social_links links) l"
  by (simp add: categorize_social_links_def)

lemma find_in_set: "find P xs = Some x \<Longrightarrow> x \<in> set xs"
  by (induction xs) (auto split: if_splits)

lemma fst_platform_markers: "map fst platform_markers = platform_names"
  by (simp add: platform_markers_def platform_names_def)

lemma spec_bucket_range:
  assumes "spec_bucket u = Some k"
  shows "k \<in> set platform_names"
proof -
  from assms obtain e where "e \<in> set platform_markers" and "fst e = k"
    unfolding spec_bucket_def by (auto dest: find_in_set)
  then have "k \<in> set (map fst platform_markers)"
    by force
  then show ?thesis
    by (simp only: fst_platform_markers)
qed

lemma dom_social_step:
  "dom (social_step m u) \<subseteq> dom m \<union> set platform_names"
proof (cases "spec_bucket u")
  case None
  then show ?thesis by (simp add: social_step_bucket)
next
  case (Some k)
  then have "k \<in> set platform_names"
    by (rule spec_bucket_range)
  with Some show ?thesis
    by (auto simp only: social_step_bucket option.case dom_fun_upd split: if_splits)
qed


text \<open>
  C9: the links are taken in the order of the input, each goes to the platform given by the
  first matching marker in the order linkedin, twitter or x.com, facebook, instagram,
  youtube, and a later link of a platform replaces an earlier one: the mapping holds, for
  every platform, the last link of that platform, and nothing for a platform without link.
\<close>

theorem categorize_last_write_wins:
  "categorize_social_links links k =
     (let hits = filter (\<lambda>l. spec_bucket l = Some k) links
      in if hits = [] then None else Some (last hits))"
proof (induction links rule: rev_induct)
  case Nil
  show ?case by (simp add: categorize_social_links_def)
next
  case (snoc l links)
  show ?case
  proof (cases "spec_bucket l")
    case None
    with snoc show ?thesis
      by (simp add: categorize_snoc social_step_bucket Let_def)
  next
    case (Some k')
    with snoc show ?thesis
      by (cases "k' = k") (simp_all add: categorize_snoc social_step_bucket Let_def)
  qed
qed

theorem categorize_last_write_wins_witness:
  "categorize_social_links
     [''https://linkedin.com/company/a'', ''https://x.com/a'', ''https://www.LinkedIn.com/in/b'']
     ''linkedin'' = Some ''https://www.LinkedIn.com/in/b''"
proof -
  have hits: "filter (\<lambda>l. spec_bucket l = Some ''linkedin'')
      [''https://linkedin.com/company/a'', ''https://x.com/a'', ''https://www.LinkedIn.com/in/b'']
    = [''https://linkedin.com/company/a'', ''https://www.LinkedIn.com/in/b'']"
    by code_simp
  show ?thesis
    unfolding categorize_last_write_wins Let_def hits by simp
qed

lemma startswith_append: "startswith s (a @ b) \<Longrightarrow> startswith s a"
  by (induction s a rule: startswith.induct) auto

lemma contains_prefix: "contains (a @ b) s \<Longrightarrow> contains a s"
  by (induction s) (auto dest: startswith_append)

lemma contains_dot_com: "contains (a @ ''.com'') s \<Longrightarrow> contains a s"
  by (rule contains_prefix)

lemma social_has_bucket:
  assumes "is_social_link u"
  shows "\<exists>k. spec_bucket u = Some k"
proof -
  from assms have "contains (''linkedin'' @ ''.com'') (lower u) \<or> contains (''twitter'' @ ''.com'') (lower u)
    \<or> contains ''x.com'' (lower u) \<or> contains (''facebook'' @ ''.com'') (lower u)
    \<or> contains (''instagram'' @ ''.com'') (lower u) \<or> contains (''youtube'' @ ''.com'') (lower u)"
    by (simp add: is_social_link_def SOCIAL_DOMAINS_def)
  then have "contains ''linkedin'' (lower u) \<or> contains ''twitter'' (lower u)
    \<or> contains ''x.com'' (lower u) \<or> contains ''facebook'' (lower u)
    \<or> contains ''instagram'' (lower u) \<or> contains ''youtube'' (lower u)"
    using contains_dot_com by blast
  then show ?thesis
    by (auto simp add: spec_bucket_def platform_markers_def)
qed

lemma dom_categorize:
  "dom (categorize_social_links links) \<subseteq> set platform_names"
proof (induction links rule: rev_induct)
  case Nil
  show ?case by (simp add: categorize_social_links_def)
next
  case (snoc l links)
  then show ?case
    using dom_social_step [of "categorize_social_links links" l]
    unfolding categorize_snoc by blast
qed

lemma bucket_key_present:
  "u \<in> set links \<Longrightarrow> spec_bucket u = Some k \<Longrightarrow> k \<in> dom (categorize_social_links links)"
proof (induction links rule: rev_induct)
  case Nil
  then show ?case by simp
next
  case (snoc l links)
  show ?case
  proof (cases "spec_bucket l = Some k")
    case True
    then show ?thesis by (simp add: categorize_snoc social_step_bucket dom_def)
  next
    case False
    with snoc.prems have "u \<in> set links"
      by auto
    with snoc have "k \<in> dom (categorize_social_links links)"
      by simp
    then show ?thesis
      by (cases "spec_bucket l") (auto simp: categorize_snoc social_step_bucket)
  qed
qed

text \<open>
  C10: the keys of the mapping are among linkedin, twitter, facebook, instagram and youtube,
  and a link that \<open>is_social_link\<close> accepts is never dropped: categorized after any links it
  is stored under some platform, and wherever it stands in the input that platform is a key
  of the result.
\<close>

theorem social_links_all_bucketed:
  "dom (categorize_social_links links) \<subseteq> set platform_names
   \<and> (is_social_link u \<longrightarrow>
        (\<exists>k. categorize_social_links (links @ [u]) k = Some u
             \<and> (u \<in> set links \<longrightarrow> k \<in> dom (categorize_social_links links))))"
proof (intro conjI impI)
  show "dom (categorize_social_links links) \<subseteq> set platform_names"
    by (rule dom_categorize)
next
  assume "is_social_link u"
  then obtain k where k: "spec_bucket u = Some k"
    using social_has_bucket by blast
  have "categorize_social_links (links @ [u]) k = Some u"
    using k by (simp add: categorize_snoc social_step_bucket)
  moreover have "u \<in> set links \<longrightarrow> k \<in> dom (categorize_social_links links)"
    using k bucket_key_present by blast
  ultimately show "\<exists>k. categorize_social_links (links @ [u]) k = Some u
             \<and> (u \<in> set links \<longrightarrow> k \<in> dom (categorize_social_links links))"
    by blast
qed

theorem social_links_all_bucketed_witness:
  "is_social_link ''https://x.com/acme''
   \<and> (\<exists>k. categorize_social_links ([''https://X.com/acme'', ''https://x.com/acme'']
                                      @ [''https://x.com/acme'']) k
             = Some ''https://x.com/acme''
           \<and> k \<in> dom (categorize_social_links [''https://X.com/acme'', ''https://x.com/acme'']))"
proof -
  have s: "is_social_link ''https://x.com/acme''"
    by code_simp
  have m: "''https://x.com/acme'' \<in> set [''https://X.com/acme'', ''https://x.com/acme'']"
    by simp
  from social_links_all_bucketed
         [of "[''https://X.com/acme'', ''https://x.com/acme'']" "''https://x.com/acme''"] s m
  show ?thesis by blast
qed

section \<open>The matcher only returns strings of the pattern\<close>

lemma startswith_iff: "startswith t s \<longleftrightarrow> (\<exists>r. t = s @ r)"
  by (induction t s rule: startswith.induct) auto

lemma startswith_drop: "startswith t s \<Longrightarrow> t = s @ drop (length s) t"
  by (auto simp: startswith_iff)

lemma snd_advance: "snd (advance pos n) = drop n (snd pos)"
  by (simp add: advance_def)

lemma list_all_take_run: "j \<le> length (takeWhile P xs) \<Longrightarrow> list_all P (take j xs)"
proof (induction xs arbitrary: j)
  case Nil
  then show ?case by simp
next
  case (Cons x xs)
  then show ?case
    by (cases j) (auto split: if_splits)
qed

lemma rx_sound: "e \<in> set (rx r pos) \<Longrightarrow> \<exists>m\<in>lang r. snd pos = m @ snd e"
proof (induction r arbitrary: pos e)
  case (Str s)
  then show ?case
    by (auto simp: snd_advance split: if_splits dest: startswith_drop)
next
  case (Rep cls lo hi)
  let ?run = "length (takeWhile cls (snd pos))"
  let ?most = "case hi of None \<Rightarrow> ?run | Some n \<Rightarrow> min n ?run"
  from Rep obtain j where j: "lo \<le> j" "j \<le> ?most" and e: "e = advance pos j"
    by (auto simp: Let_def)
  have jrun: "j \<le> ?run"
    using j(2) by (cases hi) auto
  have len: "?run \<le> length (snd pos)"
    by (rule length_takeWhile_le)
  have "list_all cls (take j (snd pos))"
    using jrun by (rule list_all_take_run)
  moreover have "length (take j (snd pos)) = j"
    using jrun len by simp
  moreover have "case hi of None \<Rightarrow> True | Some n \<Rightarrow> j \<le> n"
    using j(2) by (cases hi) auto
  ultimately have "take j (snd pos) \<in> lang (Rep cls lo hi)"
    using j(1) by (simp split: option.splits)
  moreover have "snd pos = take j (snd pos) @ snd e"
    by (simp add: e snd_advance)
  ultimately show ?case by blast
next
  case (Seq a b)
  then obtain mid where mid: "mid \<in> set (rx a pos)" and e: "e \<in> set (rx b mid)"
    by auto
  from Seq.IH(1) [OF mid] obtain x where x: "x \<in> lang a" "snd pos = x @ snd mid"
    by blast
  from Seq.IH(2) [OF e] obtain y where y: "y \<in> lang b" "snd mid = y @ snd e"
    by blast
  have "x @ y \<in> lang (Seq a b)"
    using x(1) y(1) by auto
  moreover have "snd pos = (x @ y) @ snd e"
    using x(2) y(2) by simp
  ultimately show ?case by blast
next
  case (Alt a b)
  then show ?case by fastforce
next
  case (Opt a)
  then show ?case by fastforce
next
  case (NotBehind cls)
  then show ?case by (auto split: option.splits if_splits)
next
  case (NotAhead cls)
  then show ?case by (auto split: list.splits if_splits)
next
  case WordB
  then show ?case by (auto simp: Let_def split: if_splits)
next
  case Start
  then show ?case by (auto split: option.splits)
next
  case End
  then show ?case by (auto split: if_splits)
next
  case Eps
  then show ?case by simp
qed

lemma match_here_sound:
  assumes "match_here r pos = Some n"
  shows "take n (snd pos) \<in> lang r"
proof -
  from assms obtain e es where rx: "rx r pos = e # es" and n: "n = length (snd pos) - length (snd e)"
    by (auto simp: match_here_def split: list.splits)
  then have "e \<in> set (rx r pos)"
    by simp
  then obtain m where m: "m \<in> lang r" "snd pos = m @ snd e"
    using rx_sound by blast
  then have "take n (snd pos) = m"
    using n by simp
  with m(1) show ?thesis by simp
qed

lemma scan_sound: "Inl m \<in> set (scan r k prev s) \<Longrightarrow> m \<in> lang r \<and> m \<noteq> []"
proof (induction r k prev s rule: scan.induct)
  case (1 r k prev)
  then show ?case by simp
next
  case (2 r k prev c cs)
  then show ?case by simp
next
  case (3 r prev c cs)
  show ?case
  proof (cases "match_here r (prev, c # cs)")
    case None
    with 3 show ?thesis by auto
  next
    case (Some n)
    show ?thesis
    proof (cases n)
      case 0
      with Some 3 show ?thesis by auto
    next
      case (Suc n')
      with Some 3 have "m = take n (c # cs) \<or> Inl m \<in> set (scan r n' (Some c) cs)"
        by auto
      then show ?thesis
      proof
        assume "m = take n (c # cs)"
        then show ?thesis
          using match_here_sound [OF Some] Suc by auto
      next
        assume "Inl m \<in> set (scan r n' (Some c) cs)"
        then show ?thesis
          using 3 Some Suc by auto
      qed
    qed
  qed
qed

lemma findall_sound: "m \<in> set (findall r text) \<Longrightarrow> m \<in> lang r \<and> m \<noteq> []"
  by (auto simp: findall_def dest: scan_sound)

section \<open>Telephone numbers\<close>

lemma match_here_single:
  "match_here (Rep cls (Suc 0) (Some (Suc 0))) (p, c # cs) = (if cls c then Some (Suc 0) else None)"
  by (simp add: match_here_def advance_def)

lemma scan_single:
  "scan (Rep cls (Suc 0) (Some (Suc 0))) 0 p s = map (\<lambda>c. if cls c then Inl [c] else Inr c) s"
  by (induction s arbitrary: p) (simp_all add: match_here_single)

lemma sub_single_empty: "sub (Rep cls 1 (Some 1)) [] s = filter (\<lambda>c. \<not> cls c) s"
proof -
  have "concat (map (\<lambda>t. case t of Inl m \<Rightarrow> [] | Inr c \<Rightarrow> [c])
                    (map (\<lambda>c. if cls c then Inl [c] else Inr c) s))
        = filter (\<lambda>c. \<not> cls c) s"
    by (induction s) simp_all
  then show ?thesis
    by (simp add: sub_def scan_single)
qed

lemma cleaned_filter: "cleaned m = filter (\<lambda>c. is_digit c \<or> c = CHR ''+'') m"
  unfolding cleaned_def sub_single_empty by (simp add: not_phone_chr_def)

lemma strip_id:
  assumes "s \<noteq> []" "\<not> is_space (hd s)" "\<not> is_space (last s)"
  shows "strip s = s"
proof -
  have "dropWhile is_space s = s"
    using assms(1,2) by (cases s) simp_all
  moreover have "dropWhile is_space (rev s) = rev s"
    using assms(1,3) by (cases "rev s") (simp_all add: hd_rev [symmetric])
  ultimately show ?thesis
    by (simp add: strip_def)
qed

lemma lang_SeqE:
  assumes "m \<in> lang (Seq a b)"
  obtains x y where "m = x @ y" "x \<in> lang a" "y \<in> lang b"
  using assms by auto

lemma lang_RepD:
  assumes "m \<in> lang (Rep cls lo (Some hi))"
  shows "list_all cls m" "lo \<le> length m" "length m \<le> hi"
  using assms by simp_all

lemma digit_not_space: "is_digit c \<Longrightarrow> \<not> is_space c"
  by (auto simp: is_digit_def is_space_def)

lemma plus_paren_not_space: "\<not> is_space CHR ''+''" "\<not> is_space CHR ''(''"
  by (simp_all add: is_space_def code_of_def)


lemma Cat_Nil: "Cat [] = Eps"
  by (simp add: Cat_def)

lemma Cat_Cons: "Cat (r # rs) = Seq r (Cat rs)"
  by (simp add: Cat_def)

lemma phone_parts:
  assumes "m \<in> lang phone_re"
  obtains m1 m2 m3 m4 m5 m6 m7 m8 where
    "m = m1 @ m2 @ m3 @ m4 @ m5 @ m6 @ m7 @ m8"
    "m1 = [] \<or> (\<exists>t. m1 = CHR ''+'' # t \<and> list_all phone_chr t)"
    "list_all (one_of ''('') m2"
    "list_all is_digit m3" "2 \<le> length m3"
    "list_all (one_of '')'') m4"
    "list_all phone_sep m5"
    "list_all is_digit m6"
    "list_all phone_sep m7"
    "list_all is_digit m8" "length m8 = 4"
proof -
  from assms have "m \<in> lang (Seq (Opt (Seq (Str ''+'') (Seq (Rep is_digit 1 (Some 3)) (Seq (Rep phone_sep 0 (Some 1)) Eps))))
     (Seq (Rep (one_of ''('') 0 (Some 1)) (Seq (Rep is_digit 2 (Some 4))
     (Seq (Rep (one_of '')'') 0 (Some 1)) (Seq (Rep phone_sep 0 (Some 1))
     (Seq (Rep is_digit 2 (Some 4)) (Seq (Rep phone_sep 0 (Some 1))
     (Seq (Rep is_digit 4 (Some 4)) Eps))))))))"
    by (simp only: phone_re_def Cat_Cons Cat_Nil)
  then obtain m1 r1 where 1: "m = m1 @ r1"
      "m1 \<in> lang (Opt (Seq (Str ''+'') (Seq (Rep is_digit 1 (Some 3)) (Seq (Rep phone_sep 0 (Some 1)) Eps))))"
      "r1 \<in> lang (Seq (Rep (one_of ''('') 0 (Some 1)) (Seq (Rep is_digit 2 (Some 4))
     (Seq (Rep (one_of '')'') 0 (Some 1)) (Seq (Rep phone_sep 0 (Some 1))
     (Seq (Rep is_digit 2 (Some 4)) (Seq (Rep phone_sep 0 (Some 1))
     (Seq (Rep is_digit 4 (Some 4)) Eps)))))))"
    by (rule lang_SeqE)
  from 1(3) obtain m2 r2 where 2: "r1 = m2 @ r2" "m2 \<in> lang (Rep (one_of ''('') 0 (Some 1))"
      "r2 \<in> lang (Seq (Rep is_digit 2 (Some 4))
     (Seq (Rep (one_of '')'') 0 (Some 1)) (Seq (Rep phone_sep 0 (Some 1))
     (Seq (Rep is_digit 2 (Some 4)) (Seq (Rep phone_sep 0 (Some 1))
     (Seq (Rep is_digit 4 (Some 4)) Eps))))))"
    by (rule lang_SeqE)
  from 2(3) obtain m3 r3 where 3: "r2 = m3 @ r3" "m3 \<in> lang (Rep is_digit 2 (Some 4))"
      "r3 \<in> lang (Seq (Rep (one_of '')'') 0 (Some 1)) (Seq (Rep phone_sep 0 (Some 1))
     (Seq (Rep is_digit 2 (Some 4)) (Seq (Rep phone_sep 0 (Some 1))
     (Seq (Rep is_digit 4 (Some 4)) Eps)))))"
    by (rule lang_SeqE)
  from 3(3) obtain m4 r4 where 4: "r3 = m4 @ r4" "m4 \<in> lang (Rep (one_of '')'') 0 (Some 1))"
      "r4 \<in> lang (Seq (Rep phone_sep 0 (Some 1))
     (Seq (Rep is_digit 2 (Some 4)) (Seq (Rep phone_sep 0 (Some 1))
     (Seq (Rep is_digit 4 (Some 4)) Eps))))"
    by (rule lang_SeqE)
  from 4(3) obtain m5 r5 where 5: "r4 = m5 @ r5" "m5 \<in> lang (Rep phone_sep 0 (Some 1))"
      "r5 \<in> lang (Seq (Rep is_digit 2 (Some 4)) (Seq (Rep phone_sep 0 (Some 1))
     (Seq (Rep is_digit 4 (Some 4)) Eps)))"
    by (rule lang_SeqE)
  from 5(3) obtain m6 r6 where 6: "r5 = m6 @ r6" "m6 \<in> lang (Rep is_digit 2 (Some 4))"
      "r6 \<in> lang (Seq (Rep phone_sep 0 (Some 1)) (Seq (Rep is_digit 4 (Some 4)) Eps))"
    by (rule lang_SeqE)
  from 6(3) obtain m7 r7 where 7: "r6 = m7 @ r7" "m7 \<in> lang (Rep phone_sep 0 (Some 1))"
      "r7 \<in> lang (Seq (Rep is_digit 4 (Some 4)) Eps)"
    by (rule lang_SeqE)
  from 7(3) obtain m8 r8 where 8: "r7 = m8 @ r8" "m8 \<in> lang (Rep is_digit 4 (Some 4))"
      "r8 \<in> lang Eps"
    by (rule lang_SeqE)
  have r8: "r8 = []"
    using 8(3) by simp
  have m1: "m1 = [] \<or> (\<exists>t. m1 = CHR ''+'' # t \<and> list_all phone_chr t)"
  proof (cases "m1 = []")
    case True
    then show ?thesis by simp
  next
    case False
    with 1(2) have "m1 \<in> lang (Seq (Str ''+'') (Seq (Rep is_digit 1 (Some 3))
        (Seq (Rep phone_sep 0 (Some 1)) Eps)))"
      by simp
    then obtain a ra where a: "m1 = a @ ra" "a \<in> lang (Str ''+'')"
        "ra \<in> lang (Seq (Rep is_digit 1 (Some 3)) (Seq (Rep phone_sep 0 (Some 1)) Eps))"
      by (rule lang_SeqE)
    from a(3) obtain b rb where b: "ra = b @ rb" "b \<in> lang (Rep is_digit 1 (Some 3))"
        "rb \<in> lang (Seq (Rep phone_sep 0 (Some 1)) Eps)"
      by (rule lang_SeqE)
    from b(3) obtain c rc where c: "rb = c @ rc" "c \<in> lang (Rep phone_sep 0 (Some 1))"
        "rc \<in> lang Eps"
      by (rule lang_SeqE)
    have "list_all is_digit b" "list_all phone_sep c" "rc = []" "a = ''+''"
      using a(2) b(2) c(2,3) by simp_all
    then have "m1 = CHR ''+'' # (b @ c)" "list_all phone_chr (b @ c)"
      using a(1) b(1) c(1) by (auto simp: phone_chr_def list_all_iff)
    then show ?thesis by blast
  qed
  show thesis
  proof (rule that [of m1 m2 m3 m4 m5 m6 m7 m8])
    show "m = m1 @ m2 @ m3 @ m4 @ m5 @ m6 @ m7 @ m8"
      using 1(1) 2(1) 3(1) 4(1) 5(1) 6(1) 7(1) 8(1) r8 by simp
    show "m1 = [] \<or> (\<exists>t. m1 = CHR ''+'' # t \<and> list_all phone_chr t)"
      by (rule m1)
    show "list_all (one_of ''('') m2" using 2(2) by simp
    show "list_all is_digit m3" using 3(2) by simp
    show "2 \<le> length m3" using 3(2) by simp
    show "list_all (one_of '')'') m4" using 4(2) by simp
    show "list_all phone_sep m5" using 5(2) by simp
    show "list_all is_digit m6" using 6(2) by simp
    show "list_all phone_sep m7" using 7(2) by simp
    show "list_all is_digit m8" using 8(2) by simp
    show "length m8 = 4" using 8(2) by simp
  qed
qed


lemma phone_shape:
  assumes "m \<in> lang phone_re"
  shows "list_all phone_chr m" "4 \<le> length m" "list_all is_digit (drop (length m - 4) m)"
    "strip m = m"
proof -
  from assms obtain m1 m2 m3 m4 m5 m6 m7 m8 where p:
    "m = m1 @ m2 @ m3 @ m4 @ m5 @ m6 @ m7 @ m8"
    "m1 = [] \<or> (\<exists>t. m1 = CHR ''+'' # t \<and> list_all phone_chr t)"
    "list_all (one_of ''('') m2"
    "list_all is_digit m3" "2 \<le> length m3"
    "list_all (one_of '')'') m4"
    "list_all phone_sep m5"
    "list_all is_digit m6"
    "list_all phone_sep m7"
    "list_all is_digit m8" "length m8 = 4"
    by (rule phone_parts)
  have c1: "list_all phone_chr m1"
    using p(2) by (auto simp: phone_chr_def one_of_def)
  have c2: "list_all phone_chr m2" "list_all phone_chr m4"
    using p(3,6) by (auto simp: phone_chr_def one_of_def list_all_iff)
  have c3: "list_all phone_chr m3" "list_all phone_chr m6" "list_all phone_chr m8"
    using p(4,8,10) by (auto simp: phone_chr_def list_all_iff)
  have c5: "list_all phone_chr m5" "list_all phone_chr m7"
    using p(7,9) by (auto simp: phone_chr_def list_all_iff)
  show "list_all phone_chr m"
    using c1 c2 c3 c5 by (simp add: p(1))
  show "4 \<le> length m"
    using p(11) by (simp add: p(1))
  have "drop (length m - 4) m = m8"
    using p(11) by (simp add: p(1))
  then show "list_all is_digit (drop (length m - 4) m)"
    using p(10) by simp
  have ne: "m \<noteq> []"
    using p(5) by (auto simp: p(1))
  have m8: "m8 \<noteq> []"
    using p(11) by auto
  then have "last m = last m8"
    by (simp add: p(1))
  moreover have "is_digit (last m8)"
    using p(10) m8 by (simp add: list_all_iff)
  ultimately have l: "\<not> is_space (last m)"
    by (simp add: digit_not_space)
  have m3: "m3 \<noteq> []"
    using p(5) by auto
  have "\<not> is_space (hd m)"
  proof (cases "m1 = []")
    case False
    with p(2) obtain t where "m1 = CHR ''+'' # t"
      by blast
    then show ?thesis
      by (simp add: p(1) plus_paren_not_space)
  next
    case True
    show ?thesis
    proof (cases m2)
      case Nil
      have "is_digit (hd m3)"
        using p(4) m3 by (simp add: list_all_iff)
      then show ?thesis
        using True Nil m3 by (simp add: p(1) digit_not_space)
    next
      case (Cons a as)
      with p(3) have "a = CHR ''(''"
        by (simp add: one_of_def)
      then show ?thesis
        using True Cons by (simp add: p(1) plus_paren_not_space)
    qed
  qed
  with ne l show "strip m = m"
    by (simp add: strip_id)
qed

lemma set_first_by: "set (first_by f xs) \<subseteq> set xs"
  by (induction f xs rule: first_by.induct) auto

lemma distinct_first_by: "distinct (map f (first_by f xs))"
proof (induction f xs rule: first_by.induct)
  case (1 f)
  show ?case by simp
next
  case (2 f x xs)
  have "f x \<notin> f ` set (first_by f (filter (\<lambda>y. f y \<noteq> f x) xs))"
    using set_first_by [of f "filter (\<lambda>y. f y \<noteq> f x) xs"] by auto
  with 2 show ?case by simp
qed

lemma phones_loop_eq:
  "phones_loop ms acc seen =
     acc @ map strip (first_by cleaned (filter (\<lambda>m. phone_ok m \<and> cleaned m \<notin> seen) ms))"
proof (induction ms arbitrary: acc seen)
  case Nil
  show ?case by simp
next
  case (Cons m ms)
  show ?case
  proof (cases "phone_ok m \<and> cleaned m \<notin> seen")
    case True
    have f: "filter (\<lambda>y. cleaned y \<noteq> cleaned m) (filter (\<lambda>m. phone_ok m \<and> cleaned m \<notin> seen) ms)
             = filter (\<lambda>y. phone_ok y \<and> cleaned y \<notin> insert (cleaned m) seen) ms"
      by (induction ms) auto
    from True have "phones_loop (m # ms) acc seen
                    = phones_loop ms (acc @ [strip m]) (insert (cleaned m) seen)"
      by (simp add: phone_ok_def Let_def)
    also have "\<dots> = (acc @ [strip m]) @ map strip (first_by cleaned
                 (filter (\<lambda>y. phone_ok y \<and> cleaned y \<notin> insert (cleaned m) seen) ms))"
      by (rule Cons.IH)
    finally have l: "phones_loop (m # ms) acc seen = (acc @ [strip m]) @ map strip (first_by cleaned
                 (filter (\<lambda>y. phone_ok y \<and> cleaned y \<notin> insert (cleaned m) seen) ms))" .
    have "filter (\<lambda>m. phone_ok m \<and> cleaned m \<notin> seen) (m # ms)
          = m # filter (\<lambda>m. phone_ok m \<and> cleaned m \<notin> seen) ms"
      using True by simp
    then have "first_by cleaned (filter (\<lambda>m. phone_ok m \<and> cleaned m \<notin> seen) (m # ms))
          = m # first_by cleaned
                  (filter (\<lambda>y. phone_ok y \<and> cleaned y \<notin> insert (cleaned m) seen) ms)"
      by (simp only: first_by.simps f)
    then show ?thesis
      by (simp only: l list.map append_assoc append.simps)
  next
    case False
    then have l: "phones_loop (m # ms) acc seen = phones_loop ms acc seen"
      by (auto simp: phone_ok_def Let_def)
    have g: "filter (\<lambda>m. phone_ok m \<and> cleaned m \<notin> seen) (m # ms)
             = filter (\<lambda>m. phone_ok m \<and> cleaned m \<notin> seen) ms"
      using False by simp
    show ?thesis
      by (simp only: l g Cons.IH)
  qed
qed

lemma extract_phones_eq:
  "extract_phones text = first_by cleaned (filter phone_ok (findall phone_re text))"
proof -
  let ?ms = "filter phone_ok (findall phone_re text)"
  have "strip m = m" if "m \<in> set (first_by cleaned ?ms)" for m
  proof -
    from that have "m \<in> set (findall phone_re text)"
      using set_first_by [of cleaned ?ms] by auto
    then have "m \<in> lang phone_re"
      by (simp add: findall_sound)
    then show ?thesis
      by (rule phone_shape(4))
  qed
  then have m: "map strip (first_by cleaned ?ms) = first_by cleaned ?ms"
    by (simp add: map_idI)
  have e: "findall phone_re [] = []"
    by (simp add: findall_def)
  show ?thesis
  proof (cases "text = []")
    case True
    then show ?thesis by (simp add: extract_phones_def e)
  next
    case False
    then show ?thesis
      by (simp add: extract_phones_def phones_loop_eq m)
  qed
qed


lemma phones_example:
  "extract_phones ''Call +1-555-123-4567 or (555) 987-6543''
     = [''+1-555-123-4567'', ''(555) 987-6543'']"
  by code_simp

lemma phones_example_digits:
  "map (filter is_digit) [''+1-555-123-4567'', ''(555) 987-6543'']
     = [''15551234567'', ''5559876543'']"
  by code_simp

text \<open>
  C7: \<open>extract_phones\<close> returns the matches of the pattern, each in its original formatting,
  that pass the test (cleaned form of at least 8 characters, not a bare number of one to four
  digits), one for each cleaned form (digits and \<open>+\<close>) and the first of it. A match is made
  of digits, \<open>+\<close>, parentheses and the separators \<open>-\<close>, \<open>.\<close> and white space, and ends in four
  digits. \<open>123\<close> is never returned, and the text
  \<open>Call +1-555-123-4567 or (555) 987-6543\<close> gives the two numbers, whose digits are
  \<open>15551234567\<close> and \<open>5559876543\<close>.
\<close>

theorem extract_phones_spec:
  "extract_phones text = first_by cleaned (filter phone_ok (findall phone_re text))
   \<and> (\<forall>m\<in>set (findall phone_re text).
         list_all phone_chr m \<and> 4 \<le> length m \<and> list_all is_digit (drop (length m - 4) m))
   \<and> (\<forall>p\<in>set (extract_phones text).
         p \<in> set (findall phone_re text) \<and> 8 \<le> length (cleaned p)
         \<and> cleaned p = filter (\<lambda>c. is_digit c \<or> c = CHR ''+'') p)
   \<and> distinct (map cleaned (extract_phones text))
   \<and> ''123'' \<notin> set (extract_phones text)
   \<and> extract_phones ''Call +1-555-123-4567 or (555) 987-6543''
       = [''+1-555-123-4567'', ''(555) 987-6543'']
   \<and> map (filter is_digit) (extract_phones ''Call +1-555-123-4567 or (555) 987-6543'')
       = [''15551234567'', ''5559876543'']"
proof -
  let ?ms = "findall phone_re text"
  have eq: "extract_phones text = first_by cleaned (filter phone_ok ?ms)"
    by (rule extract_phones_eq)
  have shape: "\<forall>m\<in>set ?ms.
         list_all phone_chr m \<and> 4 \<le> length m \<and> list_all is_digit (drop (length m - 4) m)"
    using findall_sound phone_shape by blast
  have sub: "set (extract_phones text) \<subseteq> set (filter phone_ok ?ms)"
    unfolding eq by (rule set_first_by)
  have kept: "\<forall>p\<in>set (extract_phones text).
         p \<in> set ?ms \<and> 8 \<le> length (cleaned p)
         \<and> cleaned p = filter (\<lambda>c. is_digit c \<or> c = CHR ''+'') p"
    using sub by (auto simp: phone_ok_def cleaned_filter)
  have dist: "distinct (map cleaned (extract_phones text))"
    unfolding eq by (rule distinct_first_by)
  have no123: "''123'' \<notin> set (extract_phones text)"
  proof
    assume "''123'' \<in> set (extract_phones text)"
    with kept have "8 \<le> length (cleaned ''123'')"
      by blast
    moreover have "length (cleaned ''123'') \<le> length ''123''"
      unfolding cleaned_filter by (rule length_filter_le)
    ultimately show False by simp
  qed
  have ex2: "map (filter is_digit) (extract_phones ''Call +1-555-123-4567 or (555) 987-6543'')
       = [''15551234567'', ''5559876543'']"
    unfolding phones_example by (rule phones_example_digits)
  from eq shape kept dist no123 phones_example ex2 show ?thesis
    by blast
qed

theorem extract_phones_spec_witness:
  "''+1-555-123-4567'' \<in> set (findall phone_re ''Call +1-555-123-4567 or room 123'')
   \<and> list_all is_digit (drop (length ''+1-555-123-4567'' - 4) ''+1-555-123-4567'')
   \<and> ''+1-555-123-4567'' \<in> set (extract_phones ''Call +1-555-123-4567 or room 123'')
   \<and> 8 \<le> length (cleaned ''+1-555-123-4567'')
   \<and> ''123'' \<notin> set (extract_phones ''Call +1-555-123-4567 or room 123'')"
proof -
  have f: "findall phone_re ''Call +1-555-123-4567 or room 123'' = [''+1-555-123-4567'']"
    by code_simp
  have e: "extract_phones ''Call +1-555-123-4567 or room 123'' = [''+1-555-123-4567'']"
    by code_simp
  have m: "''+1-555-123-4567'' \<in> set (findall phone_re ''Call +1-555-123-4567 or room 123'')"
    unfolding f by simp
  have p: "''+1-555-123-4567'' \<in> set (extract_phones ''Call +1-555-123-4567 or room 123'')"
    unfolding e by simp
  from extract_phones_spec [of "''Call +1-555-123-4567 or room 123''"] m p
  show ?thesis by blast
qed

section \<open>E-mail addresses\<close>

lemma set_list_of_set: "set (list_of_set h xs) = set xs"
  by (simp add: list_of_set_def Let_def)

lemma distinct_list_of_set: "distinct (list_of_set h xs)"
  by (simp add: list_of_set_def Let_def)

lemma list_of_set_Nil: "list_of_set h [] = []"
  using set_list_of_set [of h "[]"] by simp

lemma email_parts:
  assumes "m \<in> lang email_re"
  shows "\<exists>local dom tld. m = local @ ''@'' @ dom @ ''.'' @ tld
           \<and> local \<noteq> [] \<and> list_all email_local local
           \<and> dom \<noteq> [] \<and> list_all email_domain dom
           \<and> 2 \<le> length tld \<and> list_all is_alpha tld"
proof -
  from assms have "m \<in> lang (Seq (Rep email_local 1 None) (Seq (Str ''@'')
      (Seq (Rep email_domain 1 None) (Seq (Str ''.'') (Seq (Rep is_alpha 2 None) Eps)))))"
    by (simp only: email_re_def Cat_Cons Cat_Nil)
  then obtain a r1 where 1: "m = a @ r1" "a \<in> lang (Rep email_local 1 None)"
      "r1 \<in> lang (Seq (Str ''@'')
      (Seq (Rep email_domain 1 None) (Seq (Str ''.'') (Seq (Rep is_alpha 2 None) Eps))))"
    by (rule lang_SeqE)
  from 1(3) obtain b r2 where 2: "r1 = b @ r2" "b \<in> lang (Str ''@'')"
      "r2 \<in> lang (Seq (Rep email_domain 1 None) (Seq (Str ''.'') (Seq (Rep is_alpha 2 None) Eps)))"
    by (rule lang_SeqE)
  from 2(3) obtain c r3 where 3: "r2 = c @ r3" "c \<in> lang (Rep email_domain 1 None)"
      "r3 \<in> lang (Seq (Str ''.'') (Seq (Rep is_alpha 2 None) Eps))"
    by (rule lang_SeqE)
  from 3(3) obtain d r4 where 4: "r3 = d @ r4" "d \<in> lang (Str ''.'')"
      "r4 \<in> lang (Seq (Rep is_alpha 2 None) Eps)"
    by (rule lang_SeqE)
  from 4(3) obtain e r5 where 5: "r4 = e @ r5" "e \<in> lang (Rep is_alpha 2 None)"
      "r5 \<in> lang Eps"
    by (rule lang_SeqE)
  have "m = a @ ''@'' @ c @ ''.'' @ e"
    using 1(1) 2(1,2) 3(1) 4(1,2) 5(1,3) by simp
  moreover have "a \<noteq> []" "list_all email_local a"
    using 1(2) by auto
  moreover have "c \<noteq> []" "list_all email_domain c"
    using 3(2) by auto
  moreover have "2 \<le> length e" "list_all is_alpha e"
    using 5(2) by auto
  ultimately show ?thesis by blast
qed

lemma emails_literal:
  "findall email_re ''Contact us at [email protected] or [email protected]'' = []"
  by code_simp

text \<open>
  C8, as amended: \<open>extract_emails\<close> returns, without duplicates, the tokens that the pattern
  finds, each of the shape \<open>local@domain.tld\<close> (a non-empty local part of letters, digits
  and \<open>._%+-\<close>, a non-empty domain of letters, digits and \<open>.-\<close>, a top-level part of at
  least two letters); on the text \<open>Contact us at [email protected] or [email protected]\<close>,
  which has no \<open>@\<close>, it returns nothing.
\<close>

theorem extract_emails_spec:
  "distinct (extract_emails h text)
   \<and> set (extract_emails h text) = set (findall email_re text)
   \<and> (\<forall>e\<in>set (extract_emails h text).
        \<exists>local dom tld. e = local @ ''@'' @ dom @ ''.'' @ tld
           \<and> local \<noteq> [] \<and> list_all email_local local
           \<and> dom \<noteq> [] \<and> list_all email_domain dom
           \<and> 2 \<le> length tld \<and> list_all is_alpha tld)
   \<and> extract_emails h ''Contact us at [email protected] or [email protected]'' = []"
proof -
  have "\<forall>e\<in>set (findall email_re text).
        \<exists>local dom tld. e = local @ ''@'' @ dom @ ''.'' @ tld
           \<and> local \<noteq> [] \<and> list_all email_local local
           \<and> dom \<noteq> [] \<and> list_all email_domain dom
           \<and> 2 \<le> length tld \<and> list_all is_alpha tld"
    using findall_sound email_parts by blast
  moreover have "extract_emails h ''Contact us at [email protected] or [email protected]'' = []"
    unfolding extract_emails_def emails_literal by (rule list_of_set_Nil)
  ultimately show ?thesis
    by (simp add: extract_emails_def set_list_of_set distinct_list_of_set)
qed

theorem extract_emails_spec_witness:
  "set (extract_emails id ''Contact us at info@example.com or sales@example.com'')
     = {''info@example.com'', ''sales@example.com''}
   \<and> (\<exists>local dom tld. ''info@example.com'' = local @ ''@'' @ dom @ ''.'' @ tld
           \<and> local \<noteq> [] \<and> list_all email_local local
           \<and> dom \<noteq> [] \<and> list_all email_domain dom
           \<and> 2 \<le> length tld \<and> list_all is_alpha tld)"
proof -
  have f: "findall email_re ''Contact us at info@example.com or sales@example.com''
           = [''info@example.com'', ''sales@example.com'']"
    by code_simp
  have s: "set (extract_emails id ''Contact us at info@example.com or sales@example.com'')
     = {''info@example.com'', ''sales@example.com''}"
    using extract_emails_spec [of id "''Contact us at info@example.com or sales@example.com''"]
    unfolding f by simp
  then have "''info@example.com''
      \<in> set (extract_emails id ''Contact us at info@example.com or sales@example.com'')"
    by simp
  with extract_emails_spec [of id "''Contact us at info@example.com or sales@example.com''"] s
  show ?thesis by blast
qed

text \<open>
  C8 as stated fails: on the text of the claim the result is not the set that holds
  \<open>[email protected]\<close>.
\<close>

theorem extract_emails_literal_counterexample:
  "set (extract_emails id ''Contact us at [email protected] or [email protected]'')
     \<noteq> {''[email protected]'', ''[email protected]''}"
proof -
  have "extract_emails id ''Contact us at [email protected] or [email protected]'' = []"
    by code_simp
  then show ?thesis by simp
qed

section \<open>Pricing\<close>

lemma sort_list_of_set: "sort (list_of_set h xs) = sort (remdups xs)"
proof (rule sorted_distinct_set_unique)
  show "sorted (sort (list_of_set h xs))" by simp
  show "distinct (sort (list_of_set h xs))" by (simp add: distinct_list_of_set)
  show "sorted (sort (remdups xs))" by simp
  show "distinct (sort (remdups xs))" by simp
  show "set (sort (list_of_set h xs)) = set (sort (remdups xs))"
    by (simp add: set_list_of_set)
qed

lemma price_pattern_dollar:
  assumes "m \<in> lang price_pattern"
  shows "\<exists>t. m = CHR ''$'' # t"
proof -
  from assms obtain a r where "m = a @ r" "a \<in> lang (Str ''$'')"
    unfolding price_pattern_def Cat_Cons by (rule lang_SeqE)
  then show ?thesis by simp
qed

lemma all_prices_dollar:
  assumes "x \<in> set (all_prices text)"
  shows "\<exists>t. x = CHR ''$'' # t"
proof -
  from assms have "x \<in> set (findall price_pattern text)
      \<union> ((\<lambda>price. if \<not> startswith price ''$'' then CHR ''$'' # price else price)
           ` set (findall price_pattern_no_dollar text)
         \<union> (\<lambda>price. CHR ''$'' # price)
           ` set (filter (\<lambda>price. (0 < length price \<and> isdigit price) \<or> contains ''.'' price)
                       (findall price_pattern_standalone text)))"
    by (simp only: all_prices_def Let_def set_append set_map)
  then consider "x \<in> set (findall price_pattern text)"
    | p where "x = (if \<not> startswith p ''$'' then CHR ''$'' # p else p)"
    | p where "x = CHR ''$'' # p"
    by blast
  then show ?thesis
  proof cases
    case 1
    then show ?thesis
      using findall_sound price_pattern_dollar by blast
  next
    case 2
    show ?thesis
    proof (cases "startswith p ''$''")
      case True
      then obtain r where "p = ''$'' @ r"
        unfolding startswith_iff by blast
      with 2 True show ?thesis by simp
    next
      case False
      with 2 show ?thesis by simp
    qed
  next
    case 3
    then show ?thesis by blast
  qed
qed

lemma prices_props:
  fixes xs :: "string list"
  defines "ps \<equiv> take 5 (sort (remdups xs))"
  shows "sorted ps" "distinct ps" "length ps \<le> 5" "set ps \<subseteq> set xs"
proof -
  show "sorted ps"
    unfolding ps_def by simp
  show "distinct ps"
    unfolding ps_def by simp
  show "length ps \<le> 5"
    unfolding ps_def by simp
  show "set ps \<subseteq> set xs"
    unfolding ps_def using set_take_subset [of 5 "sort (remdups xs)"] by simp
qed

lemma example_all_prices:
  "sort (remdups (all_prices pricing_example)) = [''$29/month'', ''$99/month'']"
  by code_simp

lemma example_tiers:
  "map capitalize (filter (\<lambda>tier. contains tier (lower pricing_example)) tier_keywords)
     = [''Starter'', ''Pro'']"
  by code_simp

lemma example_free: "contains ''free'' (lower pricing_example)"
  by code_simp

lemma example_trial: "contains ''trial'' (lower pricing_example)"
  by code_simp

lemma example_nonempty: "pricing_example \<noteq> []"
  by (simp add: pricing_example_def)


lemma extract_pricing_nonempty:
  assumes "text \<noteq> []"
  shows "\<exists>p. extract_pricing h text = Some p
           \<and> prices p = take 5 (sort (remdups (all_prices text)))"
  using assms by (simp add: extract_pricing_def Let_def sort_list_of_set)

lemma extract_pricing_example:
  "\<exists>p. extract_pricing h pricing_example = Some p
       \<and> set (tiers p) = {''Starter'', ''Pro''}
       \<and> free_option p \<and> trial_available p
       \<and> prices p = [''$29/month'', ''$99/month'']"
proof -
  have "set (list_of_set h [''Starter'', ''Pro'']) = {''Starter'', ''Pro''}"
    unfolding set_list_of_set by simp
  then show ?thesis
    using example_nonempty example_free example_trial
    by (simp add: extract_pricing_def Let_def sort_list_of_set example_all_prices example_tiers)
qed

text \<open>
  C3, as amended: for every text that is not empty, \<open>extract_pricing\<close> returns a record whose
  prices are the first five, in the lexicographic order of strings, of the distinct price
  tokens found, each beginning with \<open>$\<close>; for the empty text it returns the empty
  dictionary, which has no prices. On the text of the specification the tiers are Starter
  and Pro, both flags are set and the prices are \<open>$29/month\<close> and \<open>$99/month\<close>.
\<close>

theorem extract_pricing_spec:
  "(text \<noteq> [] \<longrightarrow>
      (\<exists>p. extract_pricing h text = Some p
          \<and> prices p = take 5 (sort (remdups (all_prices text)))
          \<and> sorted (prices p) \<and> distinct (prices p) \<and> length (prices p) \<le> 5
          \<and> (\<forall>x\<in>set (prices p). x \<in> set (all_prices text) \<and> (\<exists>t. x = CHR ''$'' # t))))
   \<and> extract_pricing h [] = None
   \<and> (\<exists>p. extract_pricing h pricing_example = Some p
          \<and> set (tiers p) = {''Starter'', ''Pro''}
          \<and> free_option p \<and> trial_available p
          \<and> prices p = [''$29/month'', ''$99/month''])"
proof (intro conjI impI)
  assume "text \<noteq> []"
  then obtain p where p: "extract_pricing h text = Some p"
      "prices p = take 5 (sort (remdups (all_prices text)))"
    using extract_pricing_nonempty by blast
  have "sorted (prices p)" "distinct (prices p)" "length (prices p) \<le> 5"
      "set (prices p) \<subseteq> set (all_prices text)"
    unfolding p(2) by (rule prices_props)+
  moreover from this have
    "\<forall>x\<in>set (prices p). x \<in> set (all_prices text) \<and> (\<exists>t. x = CHR ''$'' # t)"
    using all_prices_dollar by blast
  ultimately show "\<exists>p. extract_pricing h text = Some p
          \<and> prices p = take 5 (sort (remdups (all_prices text)))
          \<and> sorted (prices p) \<and> distinct (prices p) \<and> length (prices p) \<le> 5
          \<and> (\<forall>x\<in>set (prices p). x \<in> set (all_prices text) \<and> (\<exists>t. x = CHR ''$'' # t))"
    using p by blast
next
  show "extract_pricing h [] = None"
    by (simp add: extract_pricing_def)
next
  show "\<exists>p. extract_pricing h pricing_example = Some p
          \<and> set (tiers p) = {''Starter'', ''Pro''}
          \<and> free_option p \<and> trial_available p
          \<and> prices p = [''$29/month'', ''$99/month'']"
    by (rule extract_pricing_example)
qed

theorem extract_pricing_spec_witness:
  "''$20 or $100'' \<noteq> []
   \<and> (\<exists>p. extract_pricing id ''$20 or $100'' = Some p
          \<and> prices p = [''$100'', ''$20''] \<and> sorted (prices p)
          \<and> (\<forall>x\<in>set (prices p). \<exists>t. x = CHR ''$'' # t))"
proof -
  have n: "''$20 or $100'' \<noteq> []"
    by simp
  have a: "take 5 (sort (remdups (all_prices ''$20 or $100''))) = [''$100'', ''$20'']"
    by code_simp
  from extract_pricing_spec [of "''$20 or $100''" id] n
  obtain p where "extract_pricing id ''$20 or $100'' = Some p"
      "prices p = take 5 (sort (remdups (all_prices ''$20 or $100'')))"
      "sorted (prices p)"
      "\<forall>x\<in>set (prices p). x \<in> set (all_prices ''$20 or $100'') \<and> (\<exists>t. x = CHR ''$'' # t)"
    by blast
  then show ?thesis
    unfolding a using n by blast
qed

text \<open>C3 as stated fails on the empty text: the result has no prices.\<close>

theorem extract_pricing_empty_counterexample:
  "map_option prices (extract_pricing id []) = None"
  by (simp add: extract_pricing_def)

section \<open>Description\<close>

lemma rx_ws_run:
  "rx ws_run (p, s) = map (advance (p, s)) (rev [1..<Suc (length (takeWhile is_space s))])"
  by (simp add: ws_run_def Let_def)

lemma match_here_ws_run:
  "match_here ws_run (p, s) =
     (if takeWhile is_space s = [] then None else Some (length (takeWhile is_space s)))"
proof (cases "takeWhile is_space s = []")
  case True
  then show ?thesis
    by (simp add: match_here_def rx_ws_run)
next
  case False
  define n where "n = length (takeWhile is_space s)"
  have n: "0 < n" "n \<le> length s"
    using False by (simp_all add: n_def length_takeWhile_le)
  then have "rev [1..<Suc n] = n # rev [1..<n]"
    by simp
  then have "rx ws_run (p, s) = advance (p, s) n # map (advance (p, s)) (rev [1..<n])"
    by (simp add: rx_ws_run n_def [symmetric])
  then have "match_here ws_run (p, s) = Some (length s - length (drop n s))"
    by (simp add: match_here_def snd_advance)
  also have "\<dots> = Some n"
    using n by simp
  finally show ?thesis
    using False by (simp add: n_def)
qed


lemma squeeze_no_run: "takeWhile is_space s = [] \<Longrightarrow> squeeze True s = squeeze False s"
  by (cases s) (auto split: if_splits)

lemma scan_ws_run:
  "r = ws_run \<Longrightarrow>
   (k = 0 \<longrightarrow> concat (map (\<lambda>t. case t of Inl m \<Rightarrow> '' '' | Inr c \<Rightarrow> [c]) (scan r k p s))
              = squeeze False s)
   \<and> (0 < k \<and> k = length (takeWhile is_space s) \<longrightarrow>
        concat (map (\<lambda>t. case t of Inl m \<Rightarrow> '' '' | Inr c \<Rightarrow> [c]) (scan r k p s))
          = squeeze True s)"
proof (induction r k p s rule: scan.induct)
  case (1 r k prev)
  show ?case by simp
next
  case (2 r k prev c cs)
  let ?out = "\<lambda>k p s. concat (map (\<lambda>t. case t of Inl m \<Rightarrow> '' '' | Inr c \<Rightarrow> [c]) (scan r k p s))"
  have ih: "(k = 0 \<longrightarrow> ?out k (Some c) cs = squeeze False cs)
     \<and> (0 < k \<and> k = length (takeWhile is_space cs) \<longrightarrow> ?out k (Some c) cs = squeeze True cs)"
    by (rule "2.IH" [OF "2.prems"])
  have "?out (Suc k) prev (c # cs) = squeeze True (c # cs)"
    if k: "Suc k = length (takeWhile is_space (c # cs))"
  proof -
    from k have sp: "is_space c" and k': "k = length (takeWhile is_space cs)"
      by (auto split: if_splits)
    have "?out k (Some c) cs = squeeze True cs"
    proof (cases "k = 0")
      case True
      with k' have "takeWhile is_space cs = []"
        by simp
      then show ?thesis
        using ih True by (simp add: squeeze_no_run)
    next
      case False
      then show ?thesis
        using ih k' by simp
    qed
    then show ?thesis
      using sp by simp
  qed
  then show ?case by simp
next
  case (3 r prev c cs)
  let ?out = "\<lambda>k p s. concat (map (\<lambda>t. case t of Inl m \<Rightarrow> '' '' | Inr c \<Rightarrow> [c]) (scan r k p s))"
  have r: "r = ws_run"
    by (rule "3.prems")
  show ?case
  proof (cases "is_space c")
    case False
    then have m: "match_here r (prev, c # cs) = None"
      by (simp add: r match_here_ws_run)
    have "(0 = (0::nat) \<longrightarrow> ?out 0 (Some c) cs = squeeze False cs)
       \<and> (0 < (0::nat) \<and> 0 = length (takeWhile is_space cs) \<longrightarrow> ?out 0 (Some c) cs = squeeze True cs)"
      by (rule "3.IH"(1) [OF m "3.prems"])
    then have "?out 0 (Some c) cs = squeeze False cs"
      by blast
    then show ?thesis
      using False m by simp
  next
    case True
    define n where "n = length (takeWhile is_space cs)"
    from True have m: "match_here r (prev, c # cs) = Some (Suc n)"
      by (simp add: r match_here_ws_run n_def)
    have ih: "(n = 0 \<longrightarrow> ?out n (Some c) cs = squeeze False cs)
       \<and> (0 < n \<and> n = length (takeWhile is_space cs) \<longrightarrow> ?out n (Some c) cs = squeeze True cs)"
      by (rule "3.IH"(3) [OF m refl "3.prems"])
    have "?out n (Some c) cs = squeeze True cs"
    proof (cases "n = 0")
      case True
      then have "takeWhile is_space cs = []"
        by (simp add: n_def)
      then show ?thesis
        using ih True by (simp add: squeeze_no_run)
    next
      case False
      then show ?thesis
        using ih n_def by simp
    qed
    then show ?thesis
      using True m by simp
  qed
qed

lemma sub_ws_run: "sub ws_run '' '' s = collapse_ws s"
  using scan_ws_run [of ws_run 0 None s] by (simp add: sub_def collapse_ws_def)


lemma dot_pair_Cons:
  "dot_pair (c # xs) = ((xs \<noteq> [] \<and> c = CHR ''.'' \<and> hd xs = CHR ''.'') \<or> dot_pair xs)"
  by (cases xs) auto

lemma dot_pair_append:
  "dot_pair (xs @ ys) =
     (dot_pair xs \<or> dot_pair ys
      \<or> (xs \<noteq> [] \<and> ys \<noteq> [] \<and> last xs = CHR ''.'' \<and> hd ys = CHR ''.''))"
proof (induction xs)
  case Nil
  show ?case by simp
next
  case (Cons x xs)
  show ?case
  proof (cases xs)
    case Nil
    then show ?thesis by (auto simp: dot_pair_Cons)
  next
    case (Cons y zs)
    with Cons.IH show ?thesis by auto
  qed
qed

lemma no_dot_no_pair: "CHR ''.'' \<notin> set xs \<Longrightarrow> \<not> dot_pair xs"
  by (induction xs rule: dot_pair.induct) auto

lemma split_segments: "seg \<in> set (split c s) \<Longrightarrow> c \<notin> set seg"
proof (induction s arbitrary: seg)
  case Nil
  then show ?case by simp
next
  case (Cons x xs)
  then show ?case
    by (cases "split c xs") (auto split: if_splits)
qed

lemma join_no_pair:
  assumes "\<forall>seg\<in>set segs. CHR ''.'' \<notin> set seg"
  shows "\<not> dot_pair (join ''. '' segs)"
  using assms
proof (induction "''. ''" segs rule: join.induct)
  case 1
  show ?case by simp
next
  case (2 x)
  then show ?case by (simp add: no_dot_no_pair)
next
  case (3 x y ys)
  then have x: "CHR ''.'' \<notin> set x" and rest: "\<not> dot_pair (join ''. '' (y # ys))"
    by simp_all
  have "\<not> dot_pair x"
    using x by (rule no_dot_no_pair)
  moreover have "x \<noteq> [] \<Longrightarrow> last x \<noteq> CHR ''.''"
    using x last_in_set by metis
  moreover have "\<not> dot_pair (''. '' @ join ''. '' (y # ys))"
    using rest by (simp add: dot_pair_Cons)
  ultimately show ?case
    by (auto simp: dot_pair_append)
qed

lemma strip_decomp: "\<exists>a b. s = a @ strip s @ b"
proof -
  let ?t = "dropWhile is_space s"
  have "rev (dropWhile is_space (rev ?t)) @ rev (takeWhile is_space (rev ?t))
        = rev (takeWhile is_space (rev ?t) @ dropWhile is_space (rev ?t))"
    by (simp only: rev_append)
  also have "\<dots> = rev (rev ?t)"
    by (simp only: takeWhile_dropWhile_id)
  also have "\<dots> = ?t"
    by (simp only: rev_rev_ident)
  finally have e: "rev (dropWhile is_space (rev ?t)) @ rev (takeWhile is_space (rev ?t)) = ?t" .
  have "s = takeWhile is_space s @ ?t"
    by simp
  also have "?t = strip s @ rev (takeWhile is_space (rev ?t))"
    unfolding strip_def by (rule e [symmetric])
  finally show ?thesis by blast
qed

lemma strip_no_pair: "\<not> dot_pair s \<Longrightarrow> \<not> dot_pair (strip s)"
proof -
  assume n: "\<not> dot_pair s"
  obtain a b where "s = a @ strip s @ b"
    using strip_decomp by blast
  with n have "\<not> dot_pair (a @ strip s @ b)"
    by simp
  then show ?thesis
    by (simp add: dot_pair_append)
qed

lemma hd_squeeze:
  "squeeze b s \<noteq> [] \<Longrightarrow> hd (squeeze b s) = CHR ''.'' \<Longrightarrow> \<exists>t. dropWhile is_space s = CHR ''.'' # t"
proof (induction s arbitrary: b)
  case Nil
  then show ?case by simp
next
  case (Cons c cs)
  have sp: "\<not> is_space CHR ''.''"
    by (simp add: is_space_def code_of_def)
  show ?case
  proof (cases "is_space c")
    case False
    with Cons.prems show ?thesis by simp
  next
    case True
    show ?thesis
    proof (cases b)
      case True
      with \<open>is_space c\<close> Cons show ?thesis by simp
    next
      case False
      with \<open>is_space c\<close> Cons.prems show ?thesis by simp
    qed
  qed
qed

lemma squeeze_no_pair: "\<not> dot_pair s \<Longrightarrow> \<not> dot_pair (squeeze b s)"
proof (induction s arbitrary: b)
  case Nil
  show ?case by simp
next
  case (Cons c cs)
  from Cons.prems have cs: "\<not> dot_pair cs"
    by (simp add: dot_pair_Cons)
  show ?case
  proof (cases "is_space c")
    case True
    then have "c \<noteq> CHR ''.''"
      by (auto simp: is_space_def code_of_def)
    with True Cons.IH [OF cs] show ?thesis
      by (simp add: dot_pair_Cons)
  next
    case False
    have "\<not> (squeeze False cs \<noteq> [] \<and> c = CHR ''.'' \<and> hd (squeeze False cs) = CHR ''.'')"
    proof
      assume a: "squeeze False cs \<noteq> [] \<and> c = CHR ''.'' \<and> hd (squeeze False cs) = CHR ''.''"
      then obtain t where t: "dropWhile is_space cs = CHR ''.'' # t"
        using hd_squeeze by blast
      have "cs \<noteq> []"
        using a by auto
      have "\<not> is_space (hd cs)"
      proof
        assume "is_space (hd cs)"
        then have "squeeze False cs = CHR '' '' # squeeze True (tl cs)"
          using \<open>cs \<noteq> []\<close> by (cases cs) simp_all
        with a show False by simp
      qed
      with t \<open>cs \<noteq> []\<close> have "hd cs = CHR ''.''"
        by (cases cs) simp_all
      with a \<open>cs \<noteq> []\<close> Cons.prems show False
        by (simp add: dot_pair_Cons)
    qed
    with False Cons.IH [OF cs] show ?thesis
      by (simp add: dot_pair_Cons)
  qed
qed

lemma first_sentences_no_pair: "\<not> dot_pair (first_sentences text)"
proof -
  have "\<forall>seg\<in>set (take 5 (split CHR ''.'' text)). CHR ''.'' \<notin> set seg"
    using split_segments in_set_takeD by metis
  then have "\<not> dot_pair (join ''. '' (take 5 (split CHR ''.'' text)))"
    by (rule join_no_pair)
  then have "\<not> dot_pair (strip (join ''. '' (take 5 (split CHR ''.'' text))))"
    by (rule strip_no_pair)
  then show ?thesis
    unfolding first_sentences_def collapse_ws_def by (rule squeeze_no_pair)
qed

lemma endswith_append: "endswith (xs @ ys) ys"
  by (simp add: endswith_def)

lemma endswith_dots_pair: "endswith s ''...'' \<Longrightarrow> dot_pair s"
proof -
  assume "endswith s ''...''"
  then have "s = take (length s - 3) s @ ''...''"
    by (metis append_take_drop_id endswith_def length_Cons list.size(3) numeral_3_eq_3)
  then obtain a where "s = a @ ''...''"
    by blast
  then show ?thesis
    by (simp add: dot_pair_append)
qed

lemma description_eq:
  "extract_company_description text =
     (if 500 < length (first_sentences text) then take 500 (first_sentences text) @ ''...''
      else first_sentences text)"
proof (cases "text = []")
  case True
  then show ?thesis
    by (simp add: extract_company_description_def first_sentences_def collapse_ws_def strip_def)
next
  case False
  then show ?thesis
    by (simp add: extract_company_description_def first_sentences_def sub_ws_run Let_def)
qed


lemma squeeze_spaces: "c \<in> set (squeeze b s) \<Longrightarrow> is_space c \<Longrightarrow> c = CHR '' ''"
  by (induction s arbitrary: b) (auto split: if_splits)

lemma space_pair_Cons:
  "space_pair (c # xs) = ((xs \<noteq> [] \<and> is_space c \<and> is_space (hd xs)) \<or> space_pair xs)"
  by (cases xs) auto

lemma squeeze_True_hd: "squeeze True s \<noteq> [] \<Longrightarrow> \<not> is_space (hd (squeeze True s))"
  by (induction s) (auto split: if_splits)

lemma squeeze_no_space_pair: "\<not> space_pair (squeeze b s)"
proof (induction s arbitrary: b)
  case Nil
  show ?case by simp
next
  case (Cons c cs)
  show ?case
    using Cons [of True] Cons [of False] squeeze_True_hd [of cs]
    by (auto simp: space_pair_Cons)
qed

text \<open>
  What \<open>extract_company_description\<close> returns: the first five segments between full
  stops, rejoined with a full stop and a space, trimmed, with every run of white space
  collapsed to one space, and cut when it has more than 500 characters: then the result is
  the first 500 characters followed by \<open>...\<close>. The result ends in \<open>...\<close> exactly when the text
  was cut.
\<close>

lemma description_shape:
  "extract_company_description text =
     (if 500 < length (first_sentences text) then take 500 (first_sentences text) @ ''...''
      else first_sentences text)
   \<and> length (extract_company_description text) \<le> 503
   \<and> (endswith (extract_company_description text) ''...'' \<longleftrightarrow> 500 < length (first_sentences text))
   \<and> (\<forall>c\<in>set (first_sentences text). is_space c \<longrightarrow> c = CHR '' '')
   \<and> \<not> space_pair (first_sentences text)"
proof -
  let ?d = "first_sentences text"
  have eq: "extract_company_description text =
     (if 500 < length ?d then take 500 ?d @ ''...'' else ?d)"
    by (rule description_eq)
  have len: "length (extract_company_description text) \<le> 503"
    unfolding eq by simp
  have ends: "endswith (extract_company_description text) ''...'' \<longleftrightarrow> 500 < length ?d"
  proof (cases "500 < length ?d")
    case True
    then have "extract_company_description text = take 500 ?d @ ''...''"
      by (simp add: eq)
    then show ?thesis
      using True by (simp only: endswith_append)
  next
    case False
    then have "extract_company_description text = ?d"
      by (simp add: eq)
    moreover have "\<not> endswith ?d ''...''"
      using endswith_dots_pair first_sentences_no_pair by blast
    ultimately show ?thesis
      using False by simp
  qed
  have sp: "\<forall>c\<in>set ?d. is_space c \<longrightarrow> c = CHR '' ''"
    unfolding first_sentences_def collapse_ws_def using squeeze_spaces by blast
  have np: "\<not> space_pair ?d"
    unfolding first_sentences_def collapse_ws_def by (rule squeeze_no_space_pair)
  from eq len ends sp np show ?thesis
    by blast
qed

lemma description_shape_example:
  "extract_company_description ''One. Two.  Three.Four. Five. Six. Seven.''
     = ''One. Two. Three. Four. Five''
   \<and> \<not> endswith (extract_company_description ''One. Two.  Three.Four. Five. Six. Seven.'') ''...''
   \<and> CHR '' '' \<in> set (first_sentences ''One. Two.  Three.Four. Five. Six. Seven.'')
   \<and> is_space CHR '' ''"
proof -
  have f: "first_sentences ''One. Two.  Three.Four. Five. Six. Seven.''
           = ''One. Two. Three. Four. Five''"
    by code_simp
  have s: "is_space CHR '' ''"
    by code_simp
  have n: "\<not> 500 < length (first_sentences ''One. Two.  Three.Four. Five. Six. Seven.'')"
    unfolding f by simp
  from description_shape [of "''One. Two.  Three.Four. Five. Six. Seven.''"]
  have a: "extract_company_description ''One. Two.  Three.Four. Five. Six. Seven.'' =
     (if 500 < length (first_sentences ''One. Two.  Three.Four. Five. Six. Seven.'')
      then take 500 (first_sentences ''One. Two.  Three.Four. Five. Six. Seven.'') @ ''...''
      else first_sentences ''One. Two.  Three.Four. Five. Six. Seven.'')"
    and b: "endswith (extract_company_description ''One. Two.  Three.Four. Five. Six. Seven.'') ''...''
       \<longleftrightarrow> 500 < length (first_sentences ''One. Two.  Three.Four. Five. Six. Seven.'')"
    by blast+
  have e: "extract_company_description ''One. Two.  Three.Four. Five. Six. Seven.''
     = ''One. Two. Three. Four. Five''"
    using a n by (simp only: if_False f)
  have ne: "\<not> endswith (extract_company_description ''One. Two.  Three.Four. Five. Six. Seven.'') ''...''"
    using b n by blast
  have m: "CHR '' '' \<in> set (first_sentences ''One. Two.  Three.Four. Five. Six. Seven.'')"
    unfolding f by simp
  from e ne m s show ?thesis
    by blast
qed

lemma split_absent: "c \<notin> set s \<Longrightarrow> split c s = [s]"
  by (induction s) auto

lemma squeeze_id: "\<forall>c\<in>set s. \<not> is_space c \<Longrightarrow> squeeze b s = s"
  by (induction s arbitrary: b) auto

lemma first_sentences_plain:
  assumes "s \<noteq> []" "CHR ''.'' \<notin> set s" "\<forall>c\<in>set s. \<not> is_space c"
  shows "first_sentences s = s"
proof -
  have "strip s = s"
    using assms(1,3) by (simp add: strip_id)
  then show ?thesis
    using assms(2,3) by (simp add: first_sentences_def collapse_ws_def split_absent squeeze_id)
qed

text \<open>
  C4: the description is to have at most 500 characters, and the comment in the code says
  so (limit to 500 characters), but the marker is appended after the cut: a text of 501
  letters gives 500 letters followed by \<open>...\<close>, a description of 503 characters.
\<close>

theorem description_over_limit:
  "extract_company_description (replicate 501 CHR ''a'') = replicate 500 CHR ''a'' @ ''...''
   \<and> length (extract_company_description (replicate 501 CHR ''a'')) = 503"
proof -
  have a: "\<not> is_space CHR ''a''"
    by (simp add: is_space_def code_of_def)
  have "first_sentences (replicate 501 CHR ''a'') = replicate 501 CHR ''a''"
    by (rule first_sentences_plain) (simp_all add: a)
  then have "extract_company_description (replicate 501 CHR ''a'')
             = take 500 (replicate 501 CHR ''a'') @ ''...''"
    by (simp add: description_eq)
  then show ?thesis by simp
qed

section \<open>Identity\<close>

lemma split_nonempty: "split c s \<noteq> []"
  by (induction s) (auto split: list.splits)

lemma length_split: "1 < length (split c s) \<longleftrightarrow> c \<in> set s"
proof (induction s)
  case Nil
  show ?case by simp
next
  case (Cons x xs)
  show ?case
  proof (cases "x = c")
    case True
    then show ?thesis
      using split_nonempty [of c xs] by (cases "split c xs") auto
  next
    case False
    with Cons show ?thesis
      by (cases "split c xs") auto
  qed
qed

lemma hd_split_empty: "hd (split c s) = [] \<longleftrightarrow> s = [] \<or> hd s = c"
  by (cases s) (auto split: list.splits)

lemma replace_from_skip: "replace_from k old new s = replace_from 0 old new (drop k s)"
proof (induction s arbitrary: k)
  case Nil
  show ?case by simp
next
  case (Cons c cs)
  show ?case
  proof (cases k)
    case 0
    then show ?thesis by simp
  next
    case (Suc j)
    then show ?thesis
      using Cons [of j] by simp
  qed
qed

lemma replace_Nil: "replace [] old new = []"
  by (simp add: replace_def)

lemma replace_Cons:
  "replace (c # cs) old new =
     (if old \<noteq> [] \<and> startswith (c # cs) old
      then new @ replace (drop (length old) (c # cs)) old new
      else c # replace cs old new)"
proof (cases "old \<noteq> [] \<and> startswith (c # cs) old")
  case True
  then obtain y ys where o: "old = y # ys"
    by (cases old) auto
  have "replace_from (length old - 1) old new cs
        = replace_from 0 old new (drop (length old - 1) cs)"
    by (rule replace_from_skip)
  then show ?thesis
    using True unfolding replace_def by (simp add: o)
next
  case False
  then show ?thesis
    unfolding replace_def by auto
qed

lemma replace_mem:
  assumes "c \<in> set new \<longleftrightarrow> c \<in> set old"
  shows "c \<in> set (replace s old new) \<longleftrightarrow> c \<in> set s"
proof (induction s rule: length_induct)
  case (1 s)
  show ?case
  proof (cases s)
    case Nil
    then show ?thesis by (simp add: replace_Nil)
  next
    case (Cons x xs)
    show ?thesis
    proof (cases "old \<noteq> [] \<and> startswith s old")
      case True
      then obtain r where r: "s = old @ r"
        unfolding startswith_iff by blast
      with True have "length r < length s"
        by simp
      with 1 have ih: "c \<in> set (replace r old new) \<longleftrightarrow> c \<in> set r"
        by blast
      have c: "old \<noteq> [] \<and> startswith (x # xs) old"
        using True Cons by simp
      have d: "x # xs = old @ r"
        using r Cons by simp
      have "replace (x # xs) old new = new @ replace (drop (length old) (x # xs)) old new"
        using c by (simp add: replace_Cons del: startswith.simps)
      moreover have "drop (length old) (x # xs) = r"
        by (simp add: d)
      ultimately have "replace s old new = new @ replace r old new"
        using Cons by simp
      then show ?thesis
        using ih assms r by auto
    next
      case False
      have "length xs < length s"
        using Cons by simp
      with 1 have ih: "c \<in> set (replace xs old new) \<longleftrightarrow> c \<in> set xs"
        by blast
      have "replace s old new = x # replace xs old new"
        using False Cons by (auto simp: replace_Cons)
      then show ?thesis
        using ih Cons by auto
    qed
  qed
qed

lemma pipe_kept:
  "CHR ''|'' \<in> set (replace (replace t '' | '' ''|'') '' - '' ''-'') \<longleftrightarrow> CHR ''|'' \<in> set t"
proof -
  have "CHR ''|'' \<in> set (replace (replace t '' | '' ''|'') '' - '' ''-'')
        \<longleftrightarrow> CHR ''|'' \<in> set (replace t '' | '' ''|'')"
    by (rule replace_mem) simp
  also have "\<dots> \<longleftrightarrow> CHR ''|'' \<in> set t"
    by (rule replace_mem) simp
  finally show ?thesis .
qed

lemma name_of_title_eq: "name_of_title t = strip (last (title_segments t))"
proof (cases "CHR ''|'' \<in> set t")
  case True
  let ?segs = "split CHR ''|'' (replace (replace t '' | '' ''|'') '' - '' ''-'')"
  have "1 < length ?segs"
    using True by (simp only: length_split pipe_kept)
  moreover have "last (map strip ?segs) = strip (last ?segs)"
    using split_nonempty by (simp add: last_map)
  ultimately show ?thesis
    using True by (simp add: name_of_title_def title_segments_def Let_def)
next
  case False
  let ?segs = "split CHR ''|'' (replace (replace t '' | '' ''|'') '' - '' ''-'')"
  have one: "\<not> 1 < length ?segs"
    using False by (simp only: length_split pipe_kept not_False_eq_True)
  show ?thesis
  proof (cases "CHR ''-'' \<in> set t")
    case True
    then have "1 < length (split CHR ''-'' t)"
      by (simp only: length_split)
    then show ?thesis
      using one False by (simp add: name_of_title_def title_segments_def Let_def)
  next
    case no: False
    then have "\<not> 1 < length (split CHR ''-'' t)"
      by (simp only: length_split not_False_eq_True)
    moreover have "split CHR ''-'' t = [t]"
      using no by (rule split_absent)
    ultimately show ?thesis
      using one False by (simp add: name_of_title_def title_segments_def Let_def)
  qed
qed

lemma company_name_eq:
  "company_name (extract_identity nl sp url) =
     (if page_title sp \<noteq> [] then strip (last (title_segments (page_title sp)))
      else capitalize (hd (split CHR ''.'' (bare_host nl url))))"
  by (simp add: extract_identity_def page_title_def bare_host_def Let_def name_of_title_eq
      split: option.splits)

lemma strip_empty: "strip s = [] \<longleftrightarrow> list_all is_space s"
proof
  assume "strip s = []"
  then have "dropWhile is_space (rev (dropWhile is_space s)) = []"
    by (simp add: strip_def)
  then have a: "\<forall>x\<in>set (dropWhile is_space s). is_space x"
    by simp
  have "dropWhile is_space s = []"
  proof (rule ccontr)
    assume n: "dropWhile is_space s \<noteq> []"
    then have "\<not> is_space (hd (dropWhile is_space s))"
      by (rule hd_dropWhile)
    moreover have "hd (dropWhile is_space s) \<in> set (dropWhile is_space s)"
      using n by simp
    ultimately show False
      using a by blast
  qed
  then show "list_all is_space s"
    by (simp add: list_all_iff)
next
  assume "list_all is_space s"
  then show "strip s = []"
    by (auto simp: strip_def list_all_iff dest: set_dropWhileD)
qed

lemma capitalize_empty: "capitalize s = [] \<longleftrightarrow> s = []"
  by (cases s) simp_all


lemma page_title_titled: "page_title (titled (Some (Some t))) = t" "page_title (titled None) = []"
  by (simp_all add: page_title_def titled_def)

text \<open>
  C6, as amended: for a title that is not empty, the company name is the last segment,
  trimmed, of the title cut at every \<open>|\<close> character when it has one (in the title in which
  \<open>" | "\<close> and \<open>" - "\<close> have been replaced by \<open>|\<close> and \<open>-\<close>), and else cut at every \<open>-\<close>
  character; a title with neither character gives the trimmed title. With no title, or an
  empty one, the name is the capitalized first label of the host from which every \<open>www.\<close>
  has been removed.
\<close>

theorem company_name_derivation:
  "(page_title sp \<noteq> [] \<and> CHR ''|'' \<in> set (page_title sp) \<longrightarrow>
      company_name (extract_identity nl sp url)
        = strip (last (split CHR ''|''
                         (replace (replace (page_title sp) '' | '' ''|'') '' - '' ''-''))))
   \<and> (page_title sp \<noteq> [] \<and> CHR ''|'' \<notin> set (page_title sp) \<and> CHR ''-'' \<in> set (page_title sp) \<longrightarrow>
      company_name (extract_identity nl sp url) = strip (last (split CHR ''-'' (page_title sp))))
   \<and> (page_title sp \<noteq> [] \<and> CHR ''|'' \<notin> set (page_title sp) \<and> CHR ''-'' \<notin> set (page_title sp) \<longrightarrow>
      company_name (extract_identity nl sp url) = strip (page_title sp))
   \<and> (page_title sp = [] \<longrightarrow>
      company_name (extract_identity nl sp url)
        = capitalize (hd (split CHR ''.'' (replace (nl url) ''www.'' []))))"
proof -
  have "split CHR ''-'' (page_title sp) = [page_title sp]" if "CHR ''-'' \<notin> set (page_title sp)"
    using that by (rule split_absent)
  then show ?thesis
    by (simp add: company_name_eq title_segments_def bare_host_def)
qed

lemma witness_pipe:
  "strip (last (split CHR ''|'' (replace (replace ''Home | Acme - Inc'' '' | '' ''|'') '' - '' ''-'')))
     = ''Acme-Inc''"
  by code_simp

lemma witness_hyphen: "strip (last (split CHR ''-'' ''Coca-Cola'')) = ''Cola''"
  by code_simp

lemma witness_plain: "strip ''  Acme Corp '' = ''Acme Corp''"
  by code_simp

lemma demo_host: "demo_netloc ''https://www.example.com'' = ''www.example.com''"
  by code_simp

lemma witness_host:
  "capitalize (hd (split CHR ''.'' (replace ''www.example.com'' ''www.'' []))) = ''Example''"
  by code_simp

theorem company_name_derivation_witness:
  "company_name (extract_identity demo_netloc
      (titled (Some (Some ''Home | Acme - Inc''))) ''https://www.example.com'') = ''Acme-Inc''
   \<and> company_name (extract_identity demo_netloc
      (titled (Some (Some ''Coca-Cola''))) ''https://www.example.com'') = ''Cola''
   \<and> company_name (extract_identity demo_netloc
      (titled (Some (Some ''  Acme Corp ''))) ''https://www.example.com'') = ''Acme Corp''
   \<and> company_name (extract_identity demo_netloc
      (titled None) ''https://www.example.com'') = ''Example''"
proof -
  have a: "company_name (extract_identity demo_netloc
      (titled (Some (Some ''Home | Acme - Inc''))) ''https://www.example.com'') = ''Acme-Inc''"
    using company_name_derivation [of "titled (Some (Some ''Home | Acme - Inc''))"
        demo_netloc "''https://www.example.com''", THEN conjunct1]
    unfolding page_title_titled witness_pipe by simp
  have b: "company_name (extract_identity demo_netloc
      (titled (Some (Some ''Coca-Cola''))) ''https://www.example.com'') = ''Cola''"
    using company_name_derivation [of "titled (Some (Some ''Coca-Cola''))"
        demo_netloc "''https://www.example.com''", THEN conjunct2, THEN conjunct1]
    unfolding page_title_titled witness_hyphen by simp
  have c: "company_name (extract_identity demo_netloc
      (titled (Some (Some ''  Acme Corp ''))) ''https://www.example.com'') = ''Acme Corp''"
    using company_name_derivation [of "titled (Some (Some ''  Acme Corp ''))"
        demo_netloc "''https://www.example.com''",
        THEN conjunct2, THEN conjunct2, THEN conjunct1]
    unfolding page_title_titled witness_plain by simp
  have d: "company_name (extract_identity demo_netloc
      (titled None) ''https://www.example.com'') = ''Example''"
    using company_name_derivation [of "titled None"
        demo_netloc "''https://www.example.com''",
        THEN conjunct2, THEN conjunct2, THEN conjunct2]
    unfolding page_title_titled demo_host witness_host by simp
  from a b c d show ?thesis
    by (intro conjI)
qed

text \<open>
  C6 as stated fails: \<open>Coca-Cola\<close> contains neither \<open>" | "\<close> nor \<open>" - "\<close> and does not give the
  trimmed title, and the host \<open>awww.example.com\<close>, which has no leading \<open>www.\<close>, gives
  \<open>Aexample\<close>.
\<close>

theorem company_name_derivation_counterexample:
  "\<not> contains '' | '' ''Coca-Cola'' \<and> \<not> contains '' - '' ''Coca-Cola''
   \<and> company_name (extract_identity demo_netloc
        (titled (Some (Some ''Coca-Cola''))) ''https://coca-cola.test'') \<noteq> strip ''Coca-Cola''
   \<and> company_name (extract_identity demo_netloc
        (titled None) ''https://awww.example.com'') = ''Aexample''"
  by code_simp

text \<open>
  C5, as amended: the website is the URL, unchanged. The company name is empty exactly when
  the last segment of a non-empty title is blank or, without a title, when the host without
  \<open>www.\<close> is empty or begins with a full stop; in every other case it is not empty.
\<close>

theorem identity_name_and_website:
  "website (extract_identity nl sp url) = url
   \<and> (company_name (extract_identity nl sp url) = [] \<longleftrightarrow>
        (if page_title sp \<noteq> [] then list_all is_space (last (title_segments (page_title sp)))
         else bare_host nl url = [] \<or> hd (bare_host nl url) = CHR ''.''))"
proof -
  have "website (extract_identity nl sp url) = url"
    by (simp add: extract_identity_def Let_def)
  then show ?thesis
    by (simp add: company_name_eq strip_empty capitalize_empty hd_split_empty)
qed

theorem identity_name_and_website_witness:
  "website (extract_identity demo_netloc (titled (Some (Some ''Home | Acme'')))
             ''https://acme.test'') = ''https://acme.test''
   \<and> company_name (extract_identity demo_netloc (titled (Some (Some ''Home | Acme'')))
             ''https://acme.test'') \<noteq> []
   \<and> company_name (extract_identity demo_netloc (titled None) ''https://./'') = []"
proof -
  have s: "\<not> list_all is_space (last (title_segments ''Home | Acme''))"
    by code_simp
  have h: "bare_host demo_netloc ''https://./'' = ''.''"
    by code_simp
  have a: "company_name (extract_identity demo_netloc (titled (Some (Some ''Home | Acme'')))
             ''https://acme.test'') \<noteq> []"
    using identity_name_and_website [of demo_netloc "titled (Some (Some ''Home | Acme''))"
        "''https://acme.test''", THEN conjunct2]
    unfolding page_title_titled using s by simp
  have b: "company_name (extract_identity demo_netloc (titled None) ''https://./'') = []"
    using identity_name_and_website [of demo_netloc "titled None" "''https://./''", THEN conjunct2]
    unfolding page_title_titled h by simp
  from identity_name_and_website [of demo_netloc "titled (Some (Some ''Home | Acme''))"
        "''https://acme.test''", THEN conjunct1] a b
  show ?thesis by (intro conjI)
qed

text \<open>C5 as stated fails: the title \<open>Acme |\<close> followed by a space gives an empty company name.\<close>

theorem identity_name_empty_counterexample:
  "company_name (extract_identity demo_netloc (titled (Some (Some ''Acme | '')))
      ''https://acme.test'') = []"
  by code_simp

section \<open>The orchestrator\<close>

lemma crawl_visited:
  "fst (snd (crawl_pages e pages (t, vis, pc, so, w)))
     = vis @ map fst (filter (\<lambda>(u, html). truthy html) (fetch_log e w pages))"
proof (induction pages arbitrary: t vis pc so w)
  case Nil
  show ?case by simp
next
  case (Cons u us)
  show ?case
    by (simp add: Cons split: prod.splits)
qed



lemma internal_loop_Inl:
  "internal_loop nl uj base bd links acc = Inl x \<Longrightarrow> x = ValueError"
  by (induction links arbitrary: acc) (auto split: option.splits)

lemma internal_loop_rejects:
  "(\<exists>x. internal_loop nl uj base bd links acc = Inl x) \<longleftrightarrow> list_ex (rejects nl uj base) links"
proof (induction links arbitrary: acc)
  case Nil
  show ?case by simp
next
  case (Cons link links)
  show ?case
  proof (cases "uj base link")
    case None
    then show ?thesis by (simp add: rejects_def)
  next
    case (Some full)
    show ?thesis
    proof (cases "nl full")
      case None
      with Some show ?thesis by (simp add: rejects_def)
    next
      case (Some domain)
      with \<open>uj base link = Some full\<close> show ?thesis
        using Cons by (simp add: rejects_def)
    qed
  qed
qed

lemma get_internal_links_Inl:
  "get_internal_links h nl uj base links = Inl x \<Longrightarrow> x = ValueError"
  by (auto simp: get_internal_links_def split: option.splits sum.splits dest: internal_loop_Inl)

lemma get_internal_links_rejects:
  "(\<exists>x. get_internal_links h nl uj base links = Inl x)
     \<longleftrightarrow> nl base = None \<or> list_ex (rejects nl uj base) links"
proof (cases "nl base")
  case None
  then show ?thesis by (simp add: get_internal_links_def)
next
  case (Some bd)
  have "(\<exists>x. get_internal_links h nl uj base links = Inl x)
        \<longleftrightarrow> (\<exists>x. internal_loop nl uj base bd links [] = Inl x)"
    by (cases "internal_loop nl uj base bd links []") (simp_all add: get_internal_links_def Some)
  then show ?thesis
    by (simp add: Some internal_loop_rejects)
qed


lemma run_no_driver: "get_driver e = Inl x \<Longrightarrow> run e url = Inl x"
  by (simp add: run_def)

lemma run_failed:
  assumes "get_driver e = Inr d" "home_failed e d url"
  shows "\<exists>r w'. run e url = Inr (r, w')
           \<and> errors (metadata r) \<noteq> []
           \<and> identity r = None \<and> contacts r = None
           \<and> description r = None \<and> business_info r = None
           \<and> social_links r = None \<and> key_pages r = None"
proof (cases "browse e d url")
  case (Pair res w1)
  show ?thesis
  proof (cases res)
    case (Inl msg)
    then show ?thesis
      using assms(1) Pair by (simp add: run_def fetch_page_def Let_def)
  next
    case (Inr src)
    with assms(2) Pair have "src = []"
      by (simp add: home_failed_def)
    then show ?thesis
      using assms(1) Pair Inr by (simp add: run_def fetch_page_def Let_def)
  qed
qed

lemma run_rejected:
  assumes "get_driver e = Inr d" "\<not> home_failed e d url" "home_rejected e d url"
  shows "run e url = Inl ValueError"
proof -
  from assms(2) obtain src w1 where b: "browse e d url = (Inr src, w1)" and src: "src \<noteq> []"
    by (cases "browse e d url") (auto simp: home_failed_def split: sum.splits)
  obtain homepage_text sp where g:
    "get_visible_text (decompose e) (parse_html e src) = (homepage_text, sp)"
    by (cases "get_visible_text (decompose e) (parse_html e src)")
  from assms(3) have r: "netloc e url = None
      \<or> list_ex (rejects (netloc e) (urljoin e) url) (extract_links sp)"
    by (simp add: home_rejected_def b g)
  show ?thesis
  proof (cases "netloc e url")
    case None
    then show ?thesis
      using assms(1) src by (simp add: run_def fetch_page_def b g Let_def)
  next
    case (Some host)
    with r have "\<exists>x. get_internal_links (order e) (netloc e) (urljoin e) url (extract_links sp)
                    = Inl x"
      by (simp add: get_internal_links_rejects)
    then obtain x where
      "get_internal_links (order e) (netloc e) (urljoin e) url (extract_links sp) = Inl x"
      by blast
    moreover from this have "x = ValueError"
      by (rule get_internal_links_Inl)
    ultimately show ?thesis
      using assms(1) src Some by (simp add: run_def fetch_page_def b g Let_def)
  qed
qed

lemma run_ok:
  assumes "get_driver e = Inr d" "\<not> home_failed e d url" "\<not> home_rejected e d url"
  shows "\<exists>r w' kp. run e url = Inr (r, w')
           \<and> errors (metadata r) = []
           \<and> identity r \<noteq> None \<and> contacts r \<noteq> None
           \<and> description r \<noteq> None \<and> business_info r \<noteq> None
           \<and> social_links r \<noteq> None
           \<and> key_pages r = Some kp
           \<and> pages_crawled (metadata r) = 1 + length (visited kp)
           \<and> visited kp = map fst (filter (\<lambda>(u, html). truthy html)
                 (fetch_log e (snd (browse e d url)) (attempted_pages e d url)))"
proof -
  from assms(2) obtain src w1 where b: "browse e d url = (Inr src, w1)" and src: "src \<noteq> []"
    by (cases "browse e d url") (auto simp: home_failed_def split: sum.splits)
  obtain homepage_text sp where g:
    "get_visible_text (decompose e) (parse_html e src) = (homepage_text, sp)"
    by (cases "get_visible_text (decompose e) (parse_html e src)")
  from assms(3) have n: "netloc e url \<noteq> None"
    and l: "\<not> list_ex (rejects (netloc e) (urljoin e) url) (extract_links sp)"
    by (simp_all add: home_rejected_def b g)
  from n obtain host where h: "netloc e url = Some host"
    by blast
  have "\<not> (\<exists>x. get_internal_links (order e) (netloc e) (urljoin e) url (extract_links sp)
               = Inl x)"
    using n l by (simp only: get_internal_links_rejects) simp
  then obtain links where
    i: "get_internal_links (order e) (netloc e) (urljoin e) url (extract_links sp) = Inr links"
    by (cases "get_internal_links (order e) (netloc e) (urljoin e) url (extract_links sp)") auto
  have a: "attempted_pages e d url = take MAX_PAGES (filter_priority_pages (order e) links)"
    by (simp add: attempted_pages_def b g i)
  obtain all_text vis page_contents socials w2 where c:
    "crawl_pages e (attempted_pages e d url) (homepage_text, [], Map.empty, [], w1)
       = (all_text, vis, page_contents, socials, w2)"
    by (metis prod_cases5)
  have "vis = fst (snd (crawl_pages e (attempted_pages e d url)
                          (homepage_text, [], Map.empty, [], w1)))"
    by (simp add: c)
  then have v: "vis = map fst (filter (\<lambda>(u, html). truthy html)
                 (fetch_log e w1 (attempted_pages e d url)))"
    by (simp only: crawl_visited append_Nil)
  define r where "r = \<lparr>metadata = \<lparr>timestamp = now e, pages_crawled = 1 + length vis, errors = []\<rparr>,
       identity = Some (extract_identity (accepted (netloc e)) sp url),
       contacts = Some (extract_contacts (order e) all_text),
       social_links = Some (categorize_social_links (list_of_set (order e) socials)),
       description = Some (extract_company_description all_text),
       business_info = Some (extract_business_info (order e) all_text),
       key_pages = Some \<lparr>visited = vis, page_details = page_contents\<rparr>\<rparr>"
  have run: "run e url = Inr (r, quit e w2)"
    using src c unfolding a r_def by (simp add: run_def assms(1) fetch_page_def b g h i Let_def)
  have "errors (metadata r) = []" "identity r \<noteq> None" "contacts r \<noteq> None"
      "description r \<noteq> None" "business_info r \<noteq> None" "social_links r \<noteq> None"
      "key_pages r = Some \<lparr>visited = vis, page_details = page_contents\<rparr>"
      "pages_crawled (metadata r) = 1 + length (visited \<lparr>visited = vis, page_details = page_contents\<rparr>)"
    by (simp_all add: r_def)
  moreover have "visited \<lparr>visited = vis, page_details = page_contents\<rparr>
      = map fst (filter (\<lambda>(u, html). truthy html)
                 (fetch_log e (snd (browse e d url)) (attempted_pages e d url)))"
    using v by (simp add: b)
  ultimately show ?thesis
    using run by blast
qed


lemma run_Inr_not_rejected:
  assumes "get_driver e = Inr d" "\<not> home_failed e d url" "run e url = Inr (r, w')"
  shows "\<not> home_rejected e d url"
proof
  assume "home_rejected e d url"
  with assms(1,2) have "run e url = Inl ValueError"
    by (rule run_rejected)
  with assms(3) show False by simp
qed

text \<open>
  C1, as amended: when the fetch of the homepage fails or gives an empty document, \<open>run\<close>
  returns a result with a non-empty list of errors and none of the fields identity,
  contacts, description, business_info, social_links and key_pages; and this is the only
  way to such a result: a result returned after the homepage was fetched has an empty list
  of errors and all these fields. It is not the only way for a run to fail: \<open>run\<close> returns
  no result at all, but the exception, exactly when the browser does not start or when,
  the homepage fetched, \<open>urlparse\<close> or \<open>urljoin\<close> raises \<open>ValueError\<close> on the URL or on a link
  of the homepage.
\<close>

theorem run_fatal_path:
  "(get_driver e = Inr d \<and> home_failed e d url \<longrightarrow>
      (\<exists>r w'. run e url = Inr (r, w')
         \<and> errors (metadata r) \<noteq> []
         \<and> identity r = None \<and> contacts r = None
         \<and> description r = None \<and> business_info r = None
         \<and> social_links r = None \<and> key_pages r = None))
   \<and> (get_driver e = Inr d \<and> \<not> home_failed e d url \<and> run e url = Inr (r, w') \<longrightarrow>
      errors (metadata r) = []
      \<and> identity r \<noteq> None \<and> contacts r \<noteq> None
      \<and> description r \<noteq> None \<and> business_info r \<noteq> None
      \<and> social_links r \<noteq> None \<and> key_pages r \<noteq> None)
   \<and> (run e url = Inl x \<longleftrightarrow>
        get_driver e = Inl x
        \<or> (\<exists>d. get_driver e = Inr d \<and> \<not> home_failed e d url \<and> home_rejected e d url
                 \<and> x = ValueError))"
proof -
  have p1: "get_driver e = Inr d \<and> home_failed e d url \<longrightarrow>
      (\<exists>r w'. run e url = Inr (r, w')
         \<and> errors (metadata r) \<noteq> []
         \<and> identity r = None \<and> contacts r = None
         \<and> description r = None \<and> business_info r = None
         \<and> social_links r = None \<and> key_pages r = None)"
  proof
  assume a: "get_driver e = Inr d \<and> home_failed e d url"
  then have g: "get_driver e = Inr d" and h: "home_failed e d url"
    by simp_all
  show "\<exists>r w'. run e url = Inr (r, w')
         \<and> errors (metadata r) \<noteq> []
         \<and> identity r = None \<and> contacts r = None
         \<and> description r = None \<and> business_info r = None
         \<and> social_links r = None \<and> key_pages r = None"
    by (rule run_failed [OF g h])
  qed
  have p2: "get_driver e = Inr d \<and> \<not> home_failed e d url \<and> run e url = Inr (r, w') \<longrightarrow>
      errors (metadata r) = []
      \<and> identity r \<noteq> None \<and> contacts r \<noteq> None
      \<and> description r \<noteq> None \<and> business_info r \<noteq> None
      \<and> social_links r \<noteq> None \<and> key_pages r \<noteq> None"
  proof
  assume a: "get_driver e = Inr d \<and> \<not> home_failed e d url \<and> run e url = Inr (r, w')"
  then have g: "get_driver e = Inr d" and h: "\<not> home_failed e d url"
    and rr: "run e url = Inr (r, w')"
    by simp_all
  have nr: "\<not> home_rejected e d url"
    by (rule run_Inr_not_rejected [OF g h rr])
  from run_ok [OF g h nr]
  obtain r' w'' kp where r': "run e url = Inr (r', w'')" and 1: "errors (metadata r') = []"
    and 2: "identity r' \<noteq> None" and 3: "contacts r' \<noteq> None" and 4: "description r' \<noteq> None"
    and 5: "business_info r' \<noteq> None" and 6: "social_links r' \<noteq> None"
    and 7: "key_pages r' = Some kp"
    by (elim exE conjE)
  from rr r' have eq: "r' = r"
    by simp
  have 8: "key_pages r' \<noteq> None"
    by (simp only: 7 option.distinct not_False_eq_True)
  show "errors (metadata r) = []
      \<and> identity r \<noteq> None \<and> contacts r \<noteq> None
      \<and> description r \<noteq> None \<and> business_info r \<noteq> None
      \<and> social_links r \<noteq> None \<and> key_pages r \<noteq> None"
    by (intro conjI 1 [unfolded eq] 2 [unfolded eq] 3 [unfolded eq] 4 [unfolded eq]
        5 [unfolded eq] 6 [unfolded eq] 8 [unfolded eq])
  qed
  have p3: "run e url = Inl x \<longleftrightarrow>
        get_driver e = Inl x
        \<or> (\<exists>d. get_driver e = Inr d \<and> \<not> home_failed e d url \<and> home_rejected e d url
                 \<and> x = ValueError)"
  proof
    assume ab: "run e url = Inl x"
    show "get_driver e = Inl x
        \<or> (\<exists>d. get_driver e = Inr d \<and> \<not> home_failed e d url \<and> home_rejected e d url
                 \<and> x = ValueError)"
    proof (cases "get_driver e")
      case (Inl y)
      then have "run e url = Inl y"
        by (rule run_no_driver)
      with ab have "y = x"
        by simp
      with Inl show ?thesis
        by simp
    next
      case (Inr d')
      have h: "\<not> home_failed e d' url"
      proof
        assume "home_failed e d' url"
        from run_failed [OF Inr this] obtain r0 w0 where "run e url = Inr (r0, w0)"
          by (elim exE conjE)
        with ab show False
          by simp
      qed
      have rej: "home_rejected e d' url"
      proof (rule ccontr)
        assume "\<not> home_rejected e d' url"
        from run_ok [OF Inr h this] obtain r0 w0 where "run e url = Inr (r0, w0)"
          by (elim exE conjE)
        with ab show False
          by simp
      qed
      have "run e url = Inl ValueError"
        by (rule run_rejected [OF Inr h rej])
      with ab have "x = ValueError"
        by simp
      with Inr h rej show ?thesis
        by (intro disjI2 exI [of _ d'] conjI)
    qed
  next
    assume "get_driver e = Inl x
        \<or> (\<exists>d. get_driver e = Inr d \<and> \<not> home_failed e d url \<and> home_rejected e d url
                 \<and> x = ValueError)"
    then show "run e url = Inl x"
    proof
      assume "get_driver e = Inl x"
      then show ?thesis
        by (rule run_no_driver)
    next
      assume "\<exists>d. get_driver e = Inr d \<and> \<not> home_failed e d url \<and> home_rejected e d url
                 \<and> x = ValueError"
      then obtain d' where g: "get_driver e = Inr d'" and h: "\<not> home_failed e d' url"
        and rej: "home_rejected e d' url" and x: "x = ValueError"
        by (elim exE conjE)
      show ?thesis
        unfolding x by (rule run_rejected [OF g h rej])
    qed
  qed
show ?thesis
    by (rule conjI [OF p1 conjI [OF p2 p3]])
qed

lemma demo_driver: "get_driver demo_env = Inr 0"
  by code_simp

lemma demo_down: "home_failed demo_env 0 ''https://down.test''"
  by code_simp

lemma demo_up: "\<not> home_failed demo_env 0 ''https://acme.test''"
  by code_simp

lemma demo_accepted: "\<not> home_rejected demo_env 0 ''https://acme.test''"
  by code_simp

lemma demo_bracket:
  "\<not> home_failed demo_env 0 ''https://bracket.test''"
  "home_rejected demo_env 0 ''https://bracket.test''"
  by code_simp+

theorem run_fatal_path_witness:
  "get_driver demo_env = Inr 0 \<and> home_failed demo_env 0 ''https://down.test''
   \<and> (\<exists>r w'. run demo_env ''https://down.test'' = Inr (r, w')
         \<and> errors (metadata r) \<noteq> [] \<and> identity r = None \<and> key_pages r = None)
   \<and> \<not> home_failed demo_env 0 ''https://acme.test''
   \<and> (\<exists>r w'. run demo_env ''https://acme.test'' = Inr (r, w')
         \<and> errors (metadata r) = [] \<and> identity r \<noteq> None \<and> key_pages r \<noteq> None)
   \<and> \<not> home_failed demo_env 0 ''https://bracket.test''
   \<and> home_rejected demo_env 0 ''https://bracket.test''
   \<and> run demo_env ''https://bracket.test'' = Inl ValueError"
proof -
  from run_fatal_path [of demo_env 0 "''https://down.test''", THEN conjunct1, rule_format,
      OF conjI, OF demo_driver demo_down]
  have a: "\<exists>r w'. run demo_env ''https://down.test'' = Inr (r, w')
         \<and> errors (metadata r) \<noteq> [] \<and> identity r = None \<and> key_pages r = None"
    by blast
  from run_ok [OF demo_driver demo_up demo_accepted]
  obtain r w' where run: "run demo_env ''https://acme.test'' = Inr (r, w')"
    by (elim exE conjE)
  from run_fatal_path [of demo_env 0 "''https://acme.test''" r w', THEN conjunct2,
      THEN conjunct1, rule_format, OF conjI, OF demo_driver conjI, OF demo_up run]
  have "errors (metadata r) = []" "identity r \<noteq> None" "key_pages r \<noteq> None"
    by simp_all
  with run have c: "\<exists>r w'. run demo_env ''https://acme.test'' = Inr (r, w')
         \<and> errors (metadata r) = [] \<and> identity r \<noteq> None \<and> key_pages r \<noteq> None"
    by blast
  have "get_driver demo_env = Inl ValueError
        \<or> (\<exists>d. get_driver demo_env = Inr d \<and> \<not> home_failed demo_env d ''https://bracket.test''
                 \<and> home_rejected demo_env d ''https://bracket.test'' \<and> ValueError = ValueError)"
    using demo_driver demo_bracket by blast
  then have b: "run demo_env ''https://bracket.test'' = Inl ValueError"
    by (rule run_fatal_path [of demo_env _ "''https://bracket.test''" _ _ ValueError,
          THEN conjunct2, THEN conjunct2, THEN iffD2])
  show ?thesis
    by (intro conjI demo_driver demo_down a demo_up c demo_bracket b)
qed

text \<open>
  C1 as stated fails: the homepage of the second site is fetched, and the run ends with
  \<open>ValueError\<close> and no result, on the link \<open>http://[\<close>.
\<close>

theorem run_abort_counterexample:
  "get_driver demo_env = Inr 0
   \<and> \<not> home_failed demo_env 0 ''https://bracket.test''
   \<and> run demo_env ''https://bracket.test'' = Inl ValueError"
  by (intro conjI demo_driver demo_bracket(1) run_rejected [OF demo_driver demo_bracket])




end
